theory Spec2Isabelle
  imports Complex_Main "HOL-Library.Word" "HOL-Library.Log_Nat"
begin

section \<open>Fast box blur over a summed-area table (fast\_blur.c)\<close>

text \<open>
  The whole program is the function \<open>main\<close> of \<^verbatim>\<open>fast_blur.c\<close>. It reads an image,
  allocates one table of C \<open>int\<close>s per colour channel with \<^verbatim>\<open>malloc\<close>, fills the tables in
  two passes and then writes one averaged byte per pixel and channel into a second image.

  The three loop nests carry \<^verbatim>\<open>#pragma omp parallel for\<close>; they are modelled in the order
  the loops are written, one iteration after the other.

  C \<open>int\<close> is taken to be 32 bits wide and modelled as a HOL \<open>int\<close> together with a range
  check on every arithmetic operation the source performs: a result outside
  \<open>[-2^31, 2^31 - 1]\<close> is undefined behaviour in C and is the value \<open>Inl SignedOverflow\<close>
  here. An array access outside the allocated block is \<open>Inl OutOfBounds\<close>, and a conversion
  of a \<^verbatim>\<open>float\<close> to \<^verbatim>\<open>unsigned char\<close> whose integral part does not fit is
  \<open>Inl FloatToInt\<close>.
\<close>

subsection \<open>Faults and sequencing\<close>

datatype fault = SignedOverflow | OutOfBounds | FloatToInt

definition bnd :: "fault + 'a \<Rightarrow> ('a \<Rightarrow> fault + 'b) \<Rightarrow> fault + 'b" where
  "bnd m f = (case m of Inl e \<Rightarrow> Inl e | Inr x \<Rightarrow> f x)"

subsection \<open>C integers\<close>

definition INT_MAX :: int where
  "INT_MAX = 2147483647"

definition INT_MIN :: int where
  "INT_MIN = - 2147483648"

definition c_int :: "int \<Rightarrow> fault + int" where
  "c_int x = (if INT_MIN \<le> x \<and> x \<le> INT_MAX then Inr x else Inl SignedOverflow)"

definition c_add :: "int \<Rightarrow> int \<Rightarrow> fault + int" where
  "c_add a b = c_int (a + b)"

definition c_sub :: "int \<Rightarrow> int \<Rightarrow> fault + int" where
  "c_sub a b = c_int (a - b)"

definition c_mul :: "int \<Rightarrow> int \<Rightarrow> fault + int" where
  "c_mul a b = c_int (a * b)"

text \<open>The macros \<^verbatim>\<open>min(X, Y)\<close> and \<^verbatim>\<open>max(X, Y)\<close> of lines 19 and 20.\<close>

definition min_macro :: "int \<Rightarrow> int \<Rightarrow> int" where
  "min_macro X Y = (if X < Y then X else Y)"

definition max_macro :: "int \<Rightarrow> int \<Rightarrow> int" where
  "max_macro X Y = (if X < Y then Y else X)"

text \<open>\<^verbatim>\<open>int idx(int row, int col, int width, int g)\<close>, line 25.\<close>

definition idx :: "int \<Rightarrow> int \<Rightarrow> int \<Rightarrow> int \<Rightarrow> fault + int" where
  "idx row col width g =
     bnd (c_mul row width) (\<lambda>rw. bnd (c_add rw col) (\<lambda>lin. c_mul lin g))"

text \<open>
  A \<^verbatim>\<open>for (int i = a; i < n; i++)\<close> loop over a state. The counter stays below \<open>n\<close>, so
  \<open>i + 1\<close> never leaves the range of \<open>int\<close>. A fault in the body ends the loop.
\<close>

function for_loop :: "int \<Rightarrow> int \<Rightarrow> (int \<Rightarrow> 's \<Rightarrow> fault + 's) \<Rightarrow> 's \<Rightarrow> fault + 's" where
  "for_loop i n body s =
     (if i < n
      then (case body i s of Inl e \<Rightarrow> Inl e | Inr s' \<Rightarrow> for_loop (i + 1) n body s')
      else Inr s)"
  by pat_completeness auto
termination
  by (relation "measure (\<lambda>(i, n, body, s). nat (n - i))") auto

declare for_loop.simps [simp del]

subsection \<open>The image store (ppmFile.h)\<close>

type_synonym u8 = "8 word"

record Image =
  width :: int
  height :: int
  data :: "u8 list"

text \<open>
  The bodies of \<^verbatim>\<open>ImageCreate\<close>, \<^verbatim>\<open>ImageGetPixel\<close> and \<^verbatim>\<open>ImageSetPixel\<close> are not in the
  repository's sources, only their declarations in \<^verbatim>\<open>ppmFile.h\<close>. The four definitions
  below are modelled from the specification and from the comments of the header.
\<close>

text \<open>
  Modelled from the spec: the position of a sample in \<open>data\<close>, missing with the bodies of
  the accessors. The spec (section 6) gives the layout: triplets of 8-bit R/G/B samples in
  row-major order, top to bottom.
\<close>

definition pixel_offset :: "Image \<Rightarrow> int \<Rightarrow> int \<Rightarrow> int \<Rightarrow> int" where
  "pixel_offset img x y chan = (y * width img + x) * 3 + chan"

text \<open>
  Modelled from the spec: the body of \<^verbatim>\<open>ImageCreate\<close>, which "creates an image of the
  specified width/height". The samples of the new image are taken to be 0; \<open>main\<close>
  overwrites every one of them.
\<close>

definition ImageCreate :: "int \<Rightarrow> int \<Rightarrow> Image" where
  "ImageCreate w h = \<lparr>width = w, height = h, data = replicate (nat (w * h * 3)) 0\<rparr>"

text \<open>
  Modelled from the spec: the body of \<^verbatim>\<open>ImageGetPixel\<close>, the spec's
  \<open>get_channel(x, y, channel) -> byte\<close>, which "returns the value of the color channel
  (chan) of the pixel at position (x,y)". A position outside the buffer is a fault.
\<close>

definition ImageGetPixel :: "Image \<Rightarrow> int \<Rightarrow> int \<Rightarrow> int \<Rightarrow> fault + u8" where
  "ImageGetPixel img x y chan =
     (let off = pixel_offset img x y chan
      in if 0 \<le> off \<and> off < int (length (data img))
         then Inr (data img ! nat off) else Inl OutOfBounds)"

text \<open>
  Modelled from the spec: the body of \<^verbatim>\<open>ImageSetPixel\<close>, the spec's
  \<open>set_channel(x, y, channel, value)\<close>, which "sets the color channel (chan) of the pixel
  at position (x,y) to val". A position outside the buffer is a fault.
\<close>

definition ImageSetPixel :: "Image \<Rightarrow> int \<Rightarrow> int \<Rightarrow> int \<Rightarrow> u8 \<Rightarrow> fault + Image" where
  "ImageSetPixel img x y chan val =
     (let off = pixel_offset img x y chan
      in if 0 \<le> off \<and> off < int (length (data img))
         then Inr (img\<lparr>data := (data img)[nat off := val]\<rparr>) else Inl OutOfBounds)"

subsection \<open>Tables of C ints\<close>

text \<open>\<^verbatim>\<open>t[i]\<close> as a read and as an assignment, on a block of \<open>length t\<close> ints.\<close>

definition rd :: "int list \<Rightarrow> int \<Rightarrow> fault + int" where
  "rd t i = (if 0 \<le> i \<and> i < int (length t) then Inr (t ! nat i) else Inl OutOfBounds)"

definition wr :: "int list \<Rightarrow> int \<Rightarrow> int \<Rightarrow> fault + int list" where
  "wr t i v = (if 0 \<le> i \<and> i < int (length t) then Inr (t[nat i := v]) else Inl OutOfBounds)"

subsection \<open>The state of main\<close>

text \<open>
  \<open>img_in\<close> is the image read from the input file and \<open>img_out\<close> the one made by
  \<^verbatim>\<open>ImageCreate(W, H)\<close>. \<open>sums_r\<close>, \<open>sums_g\<close> and \<open>sums_b\<close> are the three blocks returned by
  \<^verbatim>\<open>malloc(sizeof(int) * H * W)\<close>. \<^verbatim>\<open>malloc\<close> does not initialise the block, so what the
  blocks hold when \<open>main\<close> starts on them is an input of the model.
\<close>

record state =
  img_in :: Image
  img_out :: Image
  sums_r :: "int list"
  sums_g :: "int list"
  sums_b :: "int list"

subsection \<open>First pass: sums along each row (lines 77 to 87)\<close>

text \<open>
  One assignment of the inner loop's body, for the table \<open>t\<close> of channel \<open>chan\<close>:
  \<^verbatim>\<open>t[idx(row, col, W, 1)] = ImageGetPixel(img_in, col, row, chan) + t[idx(row, col - 1, W, 1)]\<close>.
\<close>

definition phase1_cell :: "Image \<Rightarrow> int \<Rightarrow> int \<Rightarrow> int \<Rightarrow> int \<Rightarrow> int list \<Rightarrow> fault + int list" where
  "phase1_cell img W row col chan t =
     bnd (ImageGetPixel img col row chan) (\<lambda>p.
     bnd (c_sub col 1) (\<lambda>cm.
     bnd (idx row cm W 1) (\<lambda>j.
     bnd (rd t j) (\<lambda>left.
     bnd (c_add (uint p) left) (\<lambda>v.
     bnd (idx row col W 1) (\<lambda>i. wr t i v))))))"

definition phase1_body :: "int \<Rightarrow> int \<Rightarrow> int \<Rightarrow> state \<Rightarrow> fault + state" where
  "phase1_body W row col s =
     bnd (phase1_cell (img_in s) W row col 0 (sums_r s)) (\<lambda>r.
     bnd (phase1_cell (img_in s) W row col 1 (sums_g s)) (\<lambda>g.
     bnd (phase1_cell (img_in s) W row col 2 (sums_b s)) (\<lambda>b.
     Inr (s\<lparr>sums_r := r, sums_g := g, sums_b := b\<rparr>))))"

definition phase1 :: "int \<Rightarrow> int \<Rightarrow> state \<Rightarrow> fault + state" where
  "phase1 W H s = for_loop 0 H (\<lambda>row. for_loop 1 W (\<lambda>col. phase1_body W row col)) s"

subsection \<open>Second pass: accumulation down each column (lines 99 to 106)\<close>

text \<open>\<^verbatim>\<open>t[idx(row, col, W, 1)] += t[idx(row - 1, col, W, 1)]\<close>.\<close>

definition phase2_cell :: "int \<Rightarrow> int \<Rightarrow> int \<Rightarrow> int list \<Rightarrow> fault + int list" where
  "phase2_cell W row col t =
     bnd (idx row col W 1) (\<lambda>i.
     bnd (rd t i) (\<lambda>cur.
     bnd (c_sub row 1) (\<lambda>rm.
     bnd (idx rm col W 1) (\<lambda>j.
     bnd (rd t j) (\<lambda>above.
     bnd (c_add cur above) (\<lambda>v. wr t i v))))))"

definition phase2_body :: "int \<Rightarrow> int \<Rightarrow> int \<Rightarrow> state \<Rightarrow> fault + state" where
  "phase2_body W col row s =
     bnd (phase2_cell W row col (sums_r s)) (\<lambda>r.
     bnd (phase2_cell W row col (sums_g s)) (\<lambda>g.
     bnd (phase2_cell W row col (sums_b s)) (\<lambda>b.
     Inr (s\<lparr>sums_r := r, sums_g := g, sums_b := b\<rparr>))))"

definition phase2 :: "int \<Rightarrow> int \<Rightarrow> state \<Rightarrow> fault + state" where
  "phase2 W H s = for_loop 0 W (\<lambda>col. for_loop 1 H (\<lambda>row. phase2_body W col row)) s"

subsection \<open>Single-precision arithmetic\<close>

text \<open>
  The statement \<^verbatim>\<open>unsigned char s = (float)(d - (b + c - a)) / pixels;\<close> converts both
  \<open>int\<close> operands to \<^verbatim>\<open>float\<close>, divides in \<^verbatim>\<open>float\<close> and converts the quotient to
  \<^verbatim>\<open>unsigned char\<close>. A finite \<^verbatim>\<open>float\<close> is modelled by the rational number it denotes;
  every operation rounds its exact result to the nearest number with a 24-bit significand,
  ties to even (IEEE 754 binary32, the default rounding mode). The operands are \<open>int\<close>s, so
  every non-zero magnitude that occurs lies between \<open>2^-31\<close> and \<open>2^31\<close>, well inside the
  normal range of the format: the exponent limits are not modelled.
\<close>

definition round_half_even :: "rat \<Rightarrow> int" where
  "round_half_even x =
     (let f = \<lfloor>x\<rfloor>; r = x - of_int f
      in if r < 1 / 2 then f else if 1 / 2 < r then f + 1 else if even f then f else f + 1)"

text \<open>The binary exponent of a positive rational: \<open>2^e \<le> x < 2^(e + 1)\<close>.\<close>

definition ilog2 :: "rat \<Rightarrow> int" where
  "ilog2 x =
     (let (n, d) = quotient_of x; k = bitlen n - bitlen d
      in if (2 :: rat) powi k \<le> x then k else k - 1)"

definition f32_round :: "rat \<Rightarrow> rat" where
  "f32_round x =
     (if x = 0 then 0
      else let ulp = (2 :: rat) powi (ilog2 \<bar>x\<bar> - 23)
           in sgn x * of_int (round_half_even (\<bar>x\<bar> / ulp)) * ulp)"

definition f32_of_int :: "int \<Rightarrow> rat" where
  "f32_of_int i = f32_round (of_int i)"

text \<open>Division by zero gives an infinity or a NaN: \<open>None\<close>.\<close>

definition f32_div :: "rat \<Rightarrow> rat \<Rightarrow> rat option" where
  "f32_div x y = (if y = 0 then None else Some (f32_round (x / y)))"

text \<open>
  Conversion to \<^verbatim>\<open>unsigned char\<close> discards the fractional part; it is undefined when the
  integral part is not in \<open>0..255\<close>, or when the value is not finite.
\<close>

definition trunc_toward_zero :: "rat \<Rightarrow> int" where
  "trunc_toward_zero x = (if 0 \<le> x then \<lfloor>x\<rfloor> else \<lceil>x\<rceil>)"

definition u8_of_f32 :: "rat option \<Rightarrow> fault + u8" where
  "u8_of_f32 v =
     (case v of
        None \<Rightarrow> Inl FloatToInt
      | Some x \<Rightarrow>
          (let t = trunc_toward_zero x
           in if 0 \<le> t \<and> t \<le> 255 then Inr (word_of_int t) else Inl FloatToInt))"

subsection \<open>Third pass: the average of the window around each pixel (lines 109 to 168)\<close>

record box =
  x_min :: int
  x_max :: int
  y_min :: int
  y_max :: int

text \<open>Lines 113 to 116.\<close>

definition bounding_box :: "int \<Rightarrow> int \<Rightarrow> int \<Rightarrow> int \<Rightarrow> int \<Rightarrow> fault + box" where
  "bounding_box W H R row col =
     bnd (c_sub col R) (\<lambda>cl.
     bnd (c_add col R) (\<lambda>cr.
     bnd (c_sub W 1) (\<lambda>w1.
     bnd (c_sub row R) (\<lambda>ru.
     bnd (c_add row R) (\<lambda>rl.
     bnd (c_sub H 1) (\<lambda>h1.
     Inr \<lparr>x_min = max_macro cl 0, x_max = min_macro cr w1,
          y_min = max_macro ru 0, y_max = min_macro rl h1\<rparr>))))))"

text \<open>Line 119: \<^verbatim>\<open>int pixels = (x_max - (x_min - 1)) * (y_max - (y_min - 1));\<close>\<close>

definition window_pixels :: "box \<Rightarrow> fault + int" where
  "window_pixels bx =
     bnd (c_sub (x_min bx) 1) (\<lambda>xm.
     bnd (c_sub (x_max bx) xm) (\<lambda>dx.
     bnd (c_sub (y_min bx) 1) (\<lambda>ym.
     bnd (c_sub (y_max bx) ym) (\<lambda>dy. c_mul dx dy))))"

text \<open>Lines 123 to 126.\<close>

definition sums_color :: "state \<Rightarrow> int \<Rightarrow> int list" where
  "sums_color s color = (if color = 0 then sums_r s else if color = 1 then sums_g s else sums_b s)"

text \<open>Lines 150 to 159: the four corner lookups.\<close>

definition corner_a :: "int list \<Rightarrow> int \<Rightarrow> box \<Rightarrow> fault + int" where
  "corner_a t W bx =
     (if y_min bx < 1 \<or> x_min bx < 1 then Inr 0
      else bnd (c_sub (y_min bx) 1) (\<lambda>y. bnd (c_sub (x_min bx) 1) (\<lambda>x.
           bnd (idx y x W 1) (rd t))))"

definition corner_b :: "int list \<Rightarrow> int \<Rightarrow> box \<Rightarrow> fault + int" where
  "corner_b t W bx =
     (if y_min bx < 1 then Inr 0
      else bnd (c_sub (y_min bx) 1) (\<lambda>y. bnd (idx y (x_max bx) W 1) (rd t)))"

definition corner_c :: "int list \<Rightarrow> int \<Rightarrow> box \<Rightarrow> fault + int" where
  "corner_c t W bx =
     (if x_min bx < 1 then Inr 0
      else bnd (c_sub (x_min bx) 1) (\<lambda>x. bnd (idx (y_max bx) x W 1) (rd t)))"

definition corner_d :: "int list \<Rightarrow> int \<Rightarrow> box \<Rightarrow> fault + int" where
  "corner_d t W bx = bnd (idx (y_max bx) (x_max bx) W 1) (rd t)"

text \<open>The \<open>int\<close> expression \<^verbatim>\<open>d - (b + c - a)\<close> of line 162.\<close>

definition window_sum :: "int list \<Rightarrow> int \<Rightarrow> box \<Rightarrow> fault + int" where
  "window_sum t W bx =
     bnd (corner_a t W bx) (\<lambda>a.
     bnd (corner_b t W bx) (\<lambda>b.
     bnd (corner_c t W bx) (\<lambda>c.
     bnd (corner_d t W bx) (\<lambda>d.
     bnd (c_add b c) (\<lambda>bc.
     bnd (c_sub bc a) (\<lambda>bca. c_sub d bca))))))"

text \<open>Line 162: \<^verbatim>\<open>unsigned char s = (float)(...) / pixels;\<close>\<close>

definition average :: "int \<Rightarrow> int \<Rightarrow> fault + u8" where
  "average ws pixels = u8_of_f32 (f32_div (f32_of_int ws) (f32_of_int pixels))"

text \<open>
  The number that line 162 converts to a byte: the quotient of the two operands as
  \<^verbatim>\<open>float\<close>s, with its fractional part discarded.
\<close>

definition float_average :: "int \<Rightarrow> int \<Rightarrow> int" where
  "float_average ws pixels = trunc_toward_zero (f32_round (f32_of_int ws / f32_of_int pixels))"

text \<open>The body of the loop over \<open>color\<close>, lines 123 to 164.\<close>

definition blur_color :: "int \<Rightarrow> int \<Rightarrow> int \<Rightarrow> box \<Rightarrow> int \<Rightarrow> int \<Rightarrow> state \<Rightarrow> fault + state" where
  "blur_color W row col bx pixels color s =
     bnd (window_sum (sums_color s color) W bx) (\<lambda>ws.
     bnd (average ws pixels) (\<lambda>v.
     bnd (ImageSetPixel (img_out s) col row color v) (\<lambda>out.
     Inr (s\<lparr>img_out := out\<rparr>))))"

text \<open>The body of the loop over \<open>col\<close>, lines 112 to 165.\<close>

definition blur_pixel :: "int \<Rightarrow> int \<Rightarrow> int \<Rightarrow> int \<Rightarrow> int \<Rightarrow> state \<Rightarrow> fault + state" where
  "blur_pixel W H R row col s =
     bnd (bounding_box W H R row col) (\<lambda>bx.
     bnd (window_pixels bx) (\<lambda>pixels.
     for_loop 0 3 (blur_color W row col bx pixels) s))"

definition blur :: "int \<Rightarrow> int \<Rightarrow> int \<Rightarrow> state \<Rightarrow> fault + state" where
  "blur W H R s = for_loop 0 H (\<lambda>row. for_loop 0 W (\<lambda>col. blur_pixel W H R row col)) s"

subsection \<open>main\<close>

text \<open>
  \<open>R\<close> is \<^verbatim>\<open>atoi(argv[1])\<close>, \<open>img\<close> the image \<^verbatim>\<open>ImageRead\<close> returns, and \<open>mem_r\<close>, \<open>mem_g\<close>,
  \<open>mem_b\<close> what the three blocks from \<^verbatim>\<open>malloc\<close> hold when they are handed out. The result
  is the state when \<^verbatim>\<open>ImageWrite(img_out, file_out_name)\<close> is reached.
\<close>

definition build_tables :: "state \<Rightarrow> fault + state" where
  "build_tables s =
     (let H = height (img_in s); W = width (img_in s)
      in bnd (phase1 W H s) (phase2 W H))"

definition start :: "Image \<Rightarrow> int list \<Rightarrow> int list \<Rightarrow> int list \<Rightarrow> state" where
  "start img mem_r mem_g mem_b =
     \<lparr>img_in = img, img_out = ImageCreate (width img) (height img),
      sums_r = mem_r, sums_g = mem_g, sums_b = mem_b\<rparr>"

definition main :: "int \<Rightarrow> Image \<Rightarrow> int list \<Rightarrow> int list \<Rightarrow> int list \<Rightarrow> fault + state" where
  "main R img mem_r mem_g mem_b =
     (let s = start img mem_r mem_g mem_b; H = height (img_in s); W = width (img_in s)
      in bnd (build_tables s) (blur W H R))"

text \<open>The image that \<^verbatim>\<open>ImageWrite(img_out, file_out_name)\<close> receives.\<close>

definition written_image :: "int \<Rightarrow> Image \<Rightarrow> int list \<Rightarrow> int list \<Rightarrow> int list \<Rightarrow> fault + Image" where
  "written_image R img mem_r mem_g mem_b =
     bnd (main R img mem_r mem_g mem_b) (\<lambda>s. Inr (img_out s))"

section \<open>What the specification says\<close>

text \<open>
  The definitions of this section follow the words of the specification, not the code; the
  theorems compare the two.
\<close>

text \<open>The table value at \<open>(r, c)\<close> of a \<open>W\<close> wide table stored row by row.\<close>

definition cell :: "int list \<Rightarrow> int \<Rightarrow> int \<Rightarrow> int \<Rightarrow> int" where
  "cell t W r c = t ! nat (r * W + c)"

text \<open>
  The four corner values of section 4.2: \<open>a\<close> is the table value at \<open>(y_min - 1, x_min - 1)\<close>, or
  0 if \<open>y_min = 0\<close> or \<open>x_min = 0\<close>; \<open>b\<close> the value at \<open>(y_min - 1, x_max)\<close>, or 0 if
  \<open>y_min = 0\<close>; \<open>c\<close> the value at \<open>(y_max, x_min - 1)\<close>, or 0 if \<open>x_min = 0\<close>; \<open>d\<close> the value at
  \<open>(y_max, x_max)\<close>. The windowed sum is \<open>d - b - c + a\<close>.
\<close>

definition spec_a :: "int list \<Rightarrow> int \<Rightarrow> box \<Rightarrow> int" where
  "spec_a t W bx =
     (if y_min bx = 0 \<or> x_min bx = 0 then 0 else cell t W (y_min bx - 1) (x_min bx - 1))"

definition spec_b :: "int list \<Rightarrow> int \<Rightarrow> box \<Rightarrow> int" where
  "spec_b t W bx = (if y_min bx = 0 then 0 else cell t W (y_min bx - 1) (x_max bx))"

definition spec_c :: "int list \<Rightarrow> int \<Rightarrow> box \<Rightarrow> int" where
  "spec_c t W bx = (if x_min bx = 0 then 0 else cell t W (y_max bx) (x_min bx - 1))"

definition spec_d :: "int list \<Rightarrow> int \<Rightarrow> box \<Rightarrow> int" where
  "spec_d t W bx = cell t W (y_max bx) (x_max bx)"

definition spec_window_sum :: "int list \<Rightarrow> int \<Rightarrow> box \<Rightarrow> int" where
  "spec_window_sum t W bx = spec_d t W bx - spec_b t W bx - spec_c t W bx + spec_a t W bx"

text \<open>
  \<open>pixel[r][c]\<close> of a channel: the sample of the image at row \<open>r\<close> and column \<open>c\<close>, as a
  number in \<open>0..255\<close>.
\<close>

definition pixel :: "Image \<Rightarrow> int \<Rightarrow> int \<Rightarrow> int \<Rightarrow> int" where
  "pixel img chan r c = uint (data img ! nat (pixel_offset img c r chan))"

text \<open>
  The invariant of the summed-area table (section 3): \<open>table[r][c]\<close> is the sum of
  \<open>pixel[r'][c']\<close> over all \<open>r' \<le> r\<close> and \<open>c' \<le> c\<close>.
\<close>

definition spec_prefix_sum :: "Image \<Rightarrow> int \<Rightarrow> int \<Rightarrow> int \<Rightarrow> int" where
  "spec_prefix_sum img chan r c = (\<Sum>r' = 0..r. \<Sum>c' = 0..c. pixel img chan r' c')"

text \<open>The sum of all pixel values of a channel over the whole image (section 8).\<close>

definition spec_total :: "Image \<Rightarrow> int \<Rightarrow> int" where
  "spec_total img chan = spec_prefix_sum img chan (height img - 1) (width img - 1)"

text \<open>
  The clamped bounding box of section 3: the square of side \<open>2R + 1\<close> centred on the pixel,
  clamped to \<open>[0, W - 1] \<times> [0, H - 1]\<close>.
\<close>

definition spec_box :: "int \<Rightarrow> int \<Rightarrow> int \<Rightarrow> int \<Rightarrow> int \<Rightarrow> box" where
  "spec_box W H R row col =
     \<lparr>x_min = max (col - R) 0, x_max = min (col + R) (W - 1),
      y_min = max (row - R) 0, y_max = min (row + R) (H - 1)\<rparr>"

definition spec_count :: "box \<Rightarrow> int" where
  "spec_count bx = (x_max bx - x_min bx + 1) * (y_max bx - y_min bx + 1)"

text \<open>
  The brute-force average of section 8: the direct sum of all input pixel values inside
  the clamped window, divided by the window's pixel count, truncated.
\<close>

definition spec_brute_force :: "Image \<Rightarrow> int \<Rightarrow> int \<Rightarrow> int \<Rightarrow> int \<Rightarrow> int" where
  "spec_brute_force img R chan row col =
     (let bx = spec_box (width img) (height img) R row col
      in (\<Sum>y = y_min bx..y_max bx. \<Sum>x = x_min bx..x_max bx. pixel img chan y x)
           div spec_count bx)"

text \<open>The global average of a channel over the whole image (section 8), truncated.\<close>

definition spec_global_average :: "Image \<Rightarrow> int \<Rightarrow> int" where
  "spec_global_average img chan = spec_total img chan div (width img * height img)"

text \<open>The byte the output image holds for a pixel and a channel.\<close>

definition out_pixel :: "state \<Rightarrow> int \<Rightarrow> int \<Rightarrow> int \<Rightarrow> int" where
  "out_pixel s chan r c = pixel (img_out s) chan r c"

text \<open>
  A valid image (section 3): width and height are positive and there is one 8-bit sample
  for each of the 3 channels of each of the \<open>W * H\<close> pixels.
\<close>

definition valid_image :: "Image \<Rightarrow> bool" where
  "valid_image img \<longleftrightarrow>
     0 < width img \<and> 0 < height img \<and> length (data img) = nat (width img * height img * 3)"

section \<open>What the tables hold\<close>

text \<open>
  The code never assigns column 0 of a table, so the value it reads there is what the block
  held when \<^verbatim>\<open>malloc\<close> returned it. \<open>effective_pixel mem img chan r c\<close> is that value for
  \<open>c = 0\<close> and the image's sample otherwise; \<open>row_sums\<close> and \<open>rect_sums\<close> are its sums along
  a row and over the rectangle from \<open>(0, 0)\<close> to \<open>(r, c)\<close>.
\<close>

definition effective_pixel :: "int list \<Rightarrow> Image \<Rightarrow> int \<Rightarrow> int \<Rightarrow> int \<Rightarrow> int" where
  "effective_pixel mem img chan r c =
     (if c = 0 then cell mem (width img) r 0 else pixel img chan r c)"

definition row_sums :: "int list \<Rightarrow> Image \<Rightarrow> int \<Rightarrow> int \<Rightarrow> int \<Rightarrow> int" where
  "row_sums mem img chan r c = (\<Sum>c' = 0..c. effective_pixel mem img chan r c')"

definition rect_sums :: "int list \<Rightarrow> Image \<Rightarrow> int \<Rightarrow> int \<Rightarrow> int \<Rightarrow> int" where
  "rect_sums mem img chan r c = (\<Sum>r' = 0..r. row_sums mem img chan r' c)"

text \<open>A table of \<open>W * H\<close> cells whose cell \<open>(r, c)\<close> holds \<open>f r c\<close>.\<close>

definition table_is :: "int \<Rightarrow> int \<Rightarrow> int list \<Rightarrow> (int \<Rightarrow> int \<Rightarrow> int) \<Rightarrow> bool" where
  "table_is W H t f \<longleftrightarrow>
     length t = nat (W * H)
     \<and> (\<forall>r c. 0 \<le> r \<and> r < H \<and> 0 \<le> c \<and> c < W \<longrightarrow> cell t W r c = f r c)"

text \<open>
  The table of a channel in the middle of the first pass, when the rows above \<open>row\<close> and the
  cells of \<open>row\<close> left of column \<open>j\<close> are done, and in the middle of the second pass, when
  the columns left of \<open>col\<close> and the cells of \<open>col\<close> above row \<open>i\<close> are done.
\<close>

definition during_phase1 :: "int list \<Rightarrow> Image \<Rightarrow> int \<Rightarrow> int \<Rightarrow> int \<Rightarrow> int \<Rightarrow> int \<Rightarrow> int" where
  "during_phase1 mem img chan row j r c =
     (if r < row \<or> (r = row \<and> c < j) then row_sums mem img chan r c
      else cell mem (width img) r c)"

definition during_phase2 :: "int list \<Rightarrow> Image \<Rightarrow> int \<Rightarrow> int \<Rightarrow> int \<Rightarrow> int \<Rightarrow> int \<Rightarrow> int" where
  "during_phase2 mem img chan col i r c =
     (if c < col \<or> (c = col \<and> r < i) then rect_sums mem img chan r c
      else row_sums mem img chan r c)"

text \<open>The block of a channel, and a state whose three tables hold \<open>f 0\<close>, \<open>f 1\<close> and \<open>f 2\<close>.\<close>

definition mem_of :: "int list \<Rightarrow> int list \<Rightarrow> int list \<Rightarrow> int \<Rightarrow> int list" where
  "mem_of mem_r mem_g mem_b chan = (if chan = 0 then mem_r else if chan = 1 then mem_g else mem_b)"

definition state_is :: "Image \<Rightarrow> Image \<Rightarrow> (int \<Rightarrow> int \<Rightarrow> int \<Rightarrow> int) \<Rightarrow> state \<Rightarrow> bool" where
  "state_is img out f s \<longleftrightarrow>
     img_in s = img \<and> img_out s = out
     \<and> table_is (width img) (height img) (sums_r s) (f 0)
     \<and> table_is (width img) (height img) (sums_g s) (f 1)
     \<and> table_is (width img) (height img) (sums_b s) (f 2)"

text \<open>
  What the third pass computes from such tables: the truncated average, over the clamped
  window, of the effective pixels.
\<close>

definition effective_window_sum :: "int list \<Rightarrow> Image \<Rightarrow> int \<Rightarrow> box \<Rightarrow> int" where
  "effective_window_sum mem img chan bx =
     (\<Sum>y = y_min bx..y_max bx. \<Sum>x = x_min bx..x_max bx. effective_pixel mem img chan y x)"

definition effective_average :: "int list \<Rightarrow> Image \<Rightarrow> int \<Rightarrow> int \<Rightarrow> int \<Rightarrow> int \<Rightarrow> int" where
  "effective_average mem img R chan row col =
     (let bx = spec_box (width img) (height img) R row col
      in effective_window_sum mem img chan bx div spec_count bx)"

text \<open>
  The same with the quotient taken as the code takes it, in single precision. The two agree
  as long as the sum stays below \<open>2^24\<close> and the count below \<open>2^17\<close>.
\<close>

definition effective_byte :: "int list \<Rightarrow> Image \<Rightarrow> int \<Rightarrow> int \<Rightarrow> int \<Rightarrow> int \<Rightarrow> int" where
  "effective_byte mem img R chan row col =
     (let bx = spec_box (width img) (height img) R row col
      in float_average (effective_window_sum mem img chan bx) (spec_count bx))"

text \<open>
  What keeps line 162 defined for a table \<open>t\<close> and a box: the three \<open>int\<close> operations of
  \<^verbatim>\<open>d - (b + c - a)\<close> stay in the range of \<open>int\<close>, and the quotient fits a byte.
\<close>

definition corners_in_range :: "int list \<Rightarrow> int \<Rightarrow> box \<Rightarrow> bool" where
  "corners_in_range t W bx \<longleftrightarrow>
     INT_MIN \<le> spec_b t W bx + spec_c t W bx \<and> spec_b t W bx + spec_c t W bx \<le> INT_MAX
     \<and> INT_MIN \<le> spec_b t W bx + spec_c t W bx - spec_a t W bx
     \<and> spec_b t W bx + spec_c t W bx - spec_a t W bx \<le> INT_MAX
     \<and> INT_MIN \<le> spec_window_sum t W bx \<and> spec_window_sum t W bx \<le> INT_MAX"

definition byte_in_range :: "int \<Rightarrow> int \<Rightarrow> bool" where
  "byte_in_range ws pixels \<longleftrightarrow> 0 \<le> float_average ws pixels \<and> float_average ws pixels \<le> 255"

text \<open>
  The third pass visits the pixels row by row and, for each pixel, the channels in order:
  \<open>done_before row col color r c chan\<close> says that the sample \<open>(r, c, chan)\<close> is written
  before the pass reaches \<open>(row, col, color)\<close>. \<open>image_is W H out P f\<close> is a \<open>W\<close> by \<open>H\<close>
  image whose samples selected by \<open>P\<close> hold \<open>f\<close>.
\<close>

definition done_before :: "int \<Rightarrow> int \<Rightarrow> int \<Rightarrow> int \<Rightarrow> int \<Rightarrow> int \<Rightarrow> bool" where
  "done_before row col color r c chan \<longleftrightarrow>
     r < row \<or> (r = row \<and> (c < col \<or> (c = col \<and> chan < color)))"

definition image_is ::
  "int \<Rightarrow> int \<Rightarrow> Image \<Rightarrow> (int \<Rightarrow> int \<Rightarrow> int \<Rightarrow> bool) \<Rightarrow> (int \<Rightarrow> int \<Rightarrow> int \<Rightarrow> int) \<Rightarrow> bool" where
  "image_is W H out P f \<longleftrightarrow>
     width out = W \<and> height out = H \<and> length (data out) = nat (W * H * 3)
     \<and> (\<forall>chan r c. 0 \<le> chan \<and> chan < 3 \<and> 0 \<le> r \<and> r < H \<and> 0 \<le> c \<and> c < W \<and> P r c chan
            \<longrightarrow> pixel out chan r c = f chan r c)"

definition tables_hold :: "Image \<Rightarrow> (int \<Rightarrow> int \<Rightarrow> int \<Rightarrow> int) \<Rightarrow> state \<Rightarrow> bool" where
  "tables_hold img f s \<longleftrightarrow>
     img_in s = img
     \<and> table_is (width img) (height img) (sums_r s) (f 0)
     \<and> table_is (width img) (height img) (sums_g s) (f 1)
     \<and> table_is (width img) (height img) (sums_b s) (f 2)"

text \<open>
  What \<open>main\<close> must leave alone: the input image is \<open>img\<close>, and the output image keeps the
  width, the height and the number of samples that \<^verbatim>\<open>ImageCreate(W, H)\<close> gave it.
\<close>

definition frame :: "Image \<Rightarrow> state \<Rightarrow> bool" where
  "frame img s \<longleftrightarrow>
     img_in s = img \<and> width (img_out s) = width img \<and> height (img_out s) = height img
     \<and> length (data (img_out s)) = length (data (ImageCreate (width img) (height img)))"

section \<open>Example inputs\<close>

text \<open>
  A 2 by 2 image with pixels \<open>(10, 20, 30)\<close>, \<open>(40, 50, 60)\<close> in the top row and
  \<open>(70, 80, 90)\<close>, \<open>(100, 110, 120)\<close> in the bottom row; a 1 by 1 image with the pixel
  \<open>(5, 5, 5)\<close>; and a block of four \<open>int\<close>s that holds zeros when \<^verbatim>\<open>malloc\<close> returns it, as
  a block of fresh pages does.
\<close>

definition image_2x2 :: Image where
  "image_2x2 = \<lparr>width = 2, height = 2,
                data = [10, 20, 30, 40, 50, 60, 70, 80, 90, 100, 110, 120]\<rparr>"

definition image_1x1 :: Image where
  "image_1x1 = \<lparr>width = 1, height = 1, data = [5, 5, 5]\<rparr>"

definition zeros4 :: "int list" where
  "zeros4 = [0, 0, 0, 0]"

text \<open>
  An image of one row of 8421506 white pixels, and a zeroed block of as many \<open>int\<close>s:
  \<open>255 * 8421505\<close> is the first multiple of 255 above \<open>2^31 - 1\<close>.
\<close>

definition white_row :: Image where
  "white_row = \<lparr>width = 8421506, height = 1, data = replicate 25264518 255\<rparr>"

definition zero_row :: "int list" where
  "zero_row = replicate 8421506 0"

text \<open>
  An image of one row of 66564 grey pixels: the first is 0, the next 126 are 255 and the
  remaining 66437 are 253, so that each channel sums to \<open>126 * 255 + 66437 * 253 = 16840691\<close>,
  one less than \<open>253 * 66564\<close>. A zeroed block of 66564 \<open>int\<close>s. A state for the third pass
  on a 3 by 3 image whose samples are all 9, with the summed-area table of that image in
  each of the three tables.
\<close>

definition grey_row :: Image where
  "grey_row = \<lparr>width = 66564, height = 1,
               data = replicate 3 0 @ replicate 378 255 @ replicate 199311 253\<rparr>"

definition zero_grey :: "int list" where
  "zero_grey = replicate 66564 0"

definition nines :: state where
  "nines = \<lparr>img_in = \<lparr>width = 3, height = 3, data = replicate 27 9\<rparr>,
            img_out = ImageCreate 3 3,
            sums_r = [9, 18, 27, 18, 36, 54, 27, 54, 81],
            sums_g = [9, 18, 27, 18, 36, 54, 27, 54, 81],
            sums_b = [9, 18, 27, 18, 36, 54, 27, 54, 81]\<rparr>"

section \<open>Basic facts\<close>

lemma bnd_Inr [simp]: "bnd (Inr x) f = f x"
  by (simp add: bnd_def)

lemma bnd_Inl [simp]: "bnd (Inl e) f = Inl e"
  by (simp add: bnd_def)

lemma bnd_eq_Inr: "bnd m f = Inr y \<longleftrightarrow> (\<exists>x. m = Inr x \<and> f x = Inr y)"
  by (cases m) simp_all

lemma c_int_ok [simp]: "INT_MIN \<le> x \<Longrightarrow> x \<le> INT_MAX \<Longrightarrow> c_int x = Inr x"
  by (simp add: c_int_def)

lemma c_int_eq_Inr: "c_int x = Inr y \<longleftrightarrow> y = x \<and> INT_MIN \<le> x \<and> x \<le> INT_MAX"
  by (auto simp: c_int_def)

lemma for_loop_done [simp]: "n \<le> i \<Longrightarrow> for_loop i n body s = Inr s"
  by (simp add: for_loop.simps)

lemma for_loop_step: "i < n \<Longrightarrow> for_loop i n body s = bnd (body i s) (for_loop (i + 1) n body)"
  by (subst for_loop.simps) (simp add: bnd_def)

lemma for_loop_inv:
  assumes "I i s" and "i \<le> n"
    and step: "\<And>j t. i \<le> j \<Longrightarrow> j < n \<Longrightarrow> I j t \<Longrightarrow> \<exists>t'. body j t = Inr t' \<and> I (j + 1) t'"
  shows "\<exists>s'. for_loop i n body s = Inr s' \<and> I n s'"
  using assms
proof (induction "nat (n - i)" arbitrary: i s)
  case 0
  then have "i = n" by simp
  with "0.prems"(1) show ?case by simp
next
  case (Suc k)
  then have lt: "i < n" by linarith
  from Suc.prems(3) [OF order_refl lt Suc.prems(1)]
  obtain t where t: "body i s = Inr t" "I (i + 1) t" by blast
  have "\<exists>s'. for_loop (i + 1) n body t = Inr s' \<and> I n s'"
  proof (rule Suc.hyps(1))
    show "k = nat (n - (i + 1))" using Suc.hyps(2) by linarith
    show "I (i + 1) t" by (rule t(2))
    show "i + 1 \<le> n" using lt by simp
    show "\<exists>t'. body j u = Inr t' \<and> I (j + 1) t'" if "i + 1 \<le> j" "j < n" "I j u" for j u
      using Suc.prems(3) [of j u] that by simp
  qed
  then show ?case by (simp add: for_loop_step [OF lt] t(1))
qed

lemma for_loop_pres:
  assumes "for_loop i n body s = Inr s'" and "P s"
    and "\<And>j t t'. body j t = Inr t' \<Longrightarrow> P t \<Longrightarrow> P t'"
  shows "P s'"
  using assms
proof (induction i n body s rule: for_loop.induct)
  case (1 i n body s)
  show ?case
  proof (cases "i < n")
    case True
    with "1.prems"(1) obtain t where t: "body i s = Inr t" "for_loop (i + 1) n body t = Inr s'"
      by (auto simp: for_loop_step bnd_eq_Inr)
    from "1.prems"(3) [OF t(1) "1.prems"(2)] have "P t" .
    from "1.IH" [OF True t(1) t(2) this "1.prems"(3)] show ?thesis .
  next
    case False
    with "1.prems" show ?thesis by simp
  qed
qed

lemma dims_in_int:
  assumes "0 < W" "0 < H" "W * H \<le> INT_MAX"
  shows "W \<le> INT_MAX" "H \<le> INT_MAX"
proof -
  have "W * 1 \<le> W * H" using assms by (intro mult_left_mono) simp_all
  then show "W \<le> INT_MAX" using assms(3) by simp
  have "1 * H \<le> W * H" using assms by (intro mult_right_mono) simp_all
  then show "H \<le> INT_MAX" using assms(3) by simp
qed

lemma window_pixels_ok:
  assumes "0 \<le> x_min bx" "x_min bx \<le> x_max bx" "x_max bx < W"
    and "0 \<le> y_min bx" "y_min bx \<le> y_max bx" "y_max bx < H"
    and "W * H \<le> INT_MAX"
  shows "window_pixels bx = Inr ((x_max bx - x_min bx + 1) * (y_max bx - y_min bx + 1))"
    and "1 \<le> (x_max bx - x_min bx + 1) * (y_max bx - y_min bx + 1)"
    and "(x_max bx - x_min bx + 1) * (y_max bx - y_min bx + 1) \<le> W * H"
proof -
  let ?dx = "x_max bx - x_min bx + 1" and ?dy = "y_max bx - y_min bx + 1"
  have W: "W \<le> INT_MAX" and H: "H \<le> INT_MAX"
    using dims_in_int [of W H] assms by simp_all
  have dx: "1 \<le> ?dx" "?dx \<le> W" and dy: "1 \<le> ?dy" "?dy \<le> H"
    using assms by simp_all
  have "1 * 1 \<le> ?dx * ?dy" using dx dy by (intro mult_mono) simp_all
  then show lo: "1 \<le> ?dx * ?dy" by simp
  show hi: "?dx * ?dy \<le> W * H" using dx dy by (intro mult_mono) simp_all
  have s1: "c_sub (x_min bx) 1 = Inr (x_min bx - 1)"
    using assms(1-3) W by (simp add: c_sub_def INT_MIN_def)
  have s2: "c_sub (x_max bx) (x_min bx - 1) = Inr ?dx"
    using dx W by (simp add: c_sub_def INT_MIN_def)
  have s3: "c_sub (y_min bx) 1 = Inr (y_min bx - 1)"
    using assms(4-6) H by (simp add: c_sub_def INT_MIN_def)
  have s4: "c_sub (y_max bx) (y_min bx - 1) = Inr ?dy"
    using dy H by (simp add: c_sub_def INT_MIN_def)
  have s5: "c_mul ?dx ?dy = Inr (?dx * ?dy)"
    using lo hi assms(7) by (simp add: c_mul_def INT_MIN_def)
  show "window_pixels bx = Inr (?dx * ?dy)"
    by (simp only: window_pixels_def s1 s2 s3 s4 s5 bnd_Inr)
qed

lemma spec_box_inside:
  assumes "0 \<le> row" "row < H" "0 \<le> col" "col < W" "0 \<le> R"
  shows "0 \<le> x_min (spec_box W H R row col)"
    and "x_min (spec_box W H R row col) \<le> x_max (spec_box W H R row col)"
    and "x_max (spec_box W H R row col) < W"
    and "0 \<le> y_min (spec_box W H R row col)"
    and "y_min (spec_box W H R row col) \<le> y_max (spec_box W H R row col)"
    and "y_max (spec_box W H R row col) < H"
  using assms by (simp_all add: spec_box_def)

lemma bounding_box_spec_box:
  assumes "0 \<le> row" "row < H" "0 \<le> col" "col < W" "0 \<le> R"
    and "col + R \<le> INT_MAX" "row + R \<le> INT_MAX" "W * H \<le> INT_MAX"
  shows "bounding_box W H R row col = Inr (spec_box W H R row col)
         \<and> window_pixels (spec_box W H R row col) = Inr (spec_count (spec_box W H R row col))"
proof -
  have W: "W \<le> INT_MAX" and H: "H \<le> INT_MAX"
    using dims_in_int [of W H] assms by simp_all
  have "bounding_box W H R row col = Inr (spec_box W H R row col)"
    using assms(1-7) W H
    by (simp add: bounding_box_def spec_box_def c_sub_def c_add_def INT_MIN_def INT_MAX_def
        max_macro_def min_macro_def max_def min_def)
  moreover have "window_pixels (spec_box W H R row col) = Inr (spec_count (spec_box W H R row col))"
    unfolding spec_count_def
    using spec_box_inside [OF assms(1-5)] assms(8) by (rule window_pixels_ok(1))
  ultimately show ?thesis by simp
qed

section \<open>The bounding box (C5)\<close>

text \<open>
  C5, as stated, for every non-negative radius: it fails where \<open>col + R\<close> leaves the range
  of \<open>int\<close> (radius \<open>2^31 - 1\<close> at column 1 of an image two pixels wide), and the pixel count
  fails where \<open>W * H\<close> does: on a 65536 by 32768 image, whose last cell \<open>2^31 - 1\<close> the passes
  can still index, a window that covers the image has \<open>2^31\<close> pixels; likewise on a 65536 by
  65536 image.
\<close>

theorem bounding_box_overflow:
  "bounding_box 2 1 2147483647 0 1 = Inl SignedOverflow
   \<and> bounding_box 65536 32768 65536 0 0
       = Inr \<lparr>x_min = 0, x_max = 65535, y_min = 0, y_max = 32767\<rparr>
   \<and> window_pixels \<lparr>x_min = 0, x_max = 65535, y_min = 0, y_max = 32767\<rparr> = Inl SignedOverflow
   \<and> bounding_box 65536 65536 65536 0 0
       = Inr \<lparr>x_min = 0, x_max = 65535, y_min = 0, y_max = 65535\<rparr>
   \<and> window_pixels \<lparr>x_min = 0, x_max = 65535, y_min = 0, y_max = 65535\<rparr> = Inl SignedOverflow"
  by (simp add: bounding_box_def window_pixels_def c_sub_def c_add_def c_mul_def c_int_def
      INT_MIN_def INT_MAX_def max_macro_def min_macro_def)


text \<open>
  C5, amended: for a pixel \<open>(row, col)\<close> of a \<open>W\<close> by \<open>H\<close> image with \<open>W * H \<le> 2^31 - 1\<close> and a
  radius \<open>R \<ge> 0\<close> with \<open>col + R \<le> 2^31 - 1\<close> and \<open>row + R \<le> 2^31 - 1\<close>, the bounding box is
  \<open>x_min = max (col - R) 0\<close>, \<open>x_max = min (col + R) (W - 1)\<close>, \<open>y_min = max (row - R) 0\<close>,
  \<open>y_max = min (row + R) (H - 1)\<close>, and the pixel count is
  \<open>(x_max - x_min + 1) * (y_max - y_min + 1)\<close>; no step of the computation overflows.
\<close>

theorem bounding_box_clamped:
  assumes "0 \<le> row" "row < H" "0 \<le> col" "col < W" "0 \<le> R"
    and "col + R \<le> INT_MAX" "row + R \<le> INT_MAX" "W * H \<le> INT_MAX"
  shows "bounding_box W H R row col
           = Inr \<lparr>x_min = max (col - R) 0, x_max = min (col + R) (W - 1),
                  y_min = max (row - R) 0, y_max = min (row + R) (H - 1)\<rparr>
         \<and> window_pixels \<lparr>x_min = max (col - R) 0, x_max = min (col + R) (W - 1),
                           y_min = max (row - R) 0, y_max = min (row + R) (H - 1)\<rparr>
           = Inr ((min (col + R) (W - 1) - max (col - R) 0 + 1)
                  * (min (row + R) (H - 1) - max (row - R) 0 + 1))"
  using bounding_box_spec_box [OF assms] by (simp add: spec_box_def spec_count_def)

text \<open>The corner pixel of a 4 by 4 image at radius 1: the window is the 2 by 2 block.\<close>

theorem bounding_box_clamped_witness:
  "bounding_box 4 4 1 0 0 = Inr \<lparr>x_min = 0, x_max = 1, y_min = 0, y_max = 1\<rparr>
   \<and> window_pixels \<lparr>x_min = 0, x_max = 1, y_min = 0, y_max = 1\<rparr> = Inr 4"
  using bounding_box_clamped [of 0 4 0 4 1] by (simp add: INT_MAX_def)


section \<open>Indexing the tables\<close>

lemma idx_ok:
  assumes "0 \<le> row" "row < H" "0 \<le> col" "col < W" "W * H \<le> INT_MAX"
  shows "idx row col W 1 = Inr (row * W + col)"
    and "0 \<le> row * W + col" and "row * W + col < W * H"
proof -
  have "(row + 1) * W \<le> H * W"
    using assms by (intro mult_right_mono) simp_all
  then show hi: "row * W + col < W * H"
    using assms(4) by (simp add: algebra_simps)
  have "0 \<le> row * W" using assms by simp
  then show lo: "0 \<le> row * W + col" using assms(3) by simp
  have rw: "0 \<le> row * W" "row * W \<le> INT_MAX"
    using \<open>0 \<le> row * W\<close> hi assms(3,5) by simp_all
  have "c_mul row W = Inr (row * W)"
    using rw by (simp add: c_mul_def INT_MIN_def)
  moreover have "c_add (row * W) col = Inr (row * W + col)"
    using lo hi assms(5) by (simp add: c_add_def INT_MIN_def)
  moreover have "c_mul (row * W + col) 1 = Inr (row * W + col)"
    using lo hi assms(5) by (simp add: c_mul_def INT_MIN_def)
  ultimately show "idx row col W 1 = Inr (row * W + col)"
    by (simp add: idx_def)
qed

lemma rd_cell:
  assumes "0 \<le> row" "row < H" "0 \<le> col" "col < W" "W * H \<le> INT_MAX"
    and "length t = nat (W * H)"
  shows "bnd (idx row col W 1) (rd t) = Inr (cell t W row col)"
  using idx_ok [OF assms(1-5)] assms(6) by (simp add: rd_def cell_def)

lemma window_sum_formula:
  assumes "0 \<le> x_min bx" "x_min bx \<le> x_max bx" "x_max bx < W"
    and "0 \<le> y_min bx" "y_min bx \<le> y_max bx" "y_max bx < H"
    and "W * H \<le> INT_MAX" "length t = nat (W * H)"
    and "INT_MIN \<le> spec_b t W bx + spec_c t W bx" "spec_b t W bx + spec_c t W bx \<le> INT_MAX"
    and "INT_MIN \<le> spec_b t W bx + spec_c t W bx - spec_a t W bx"
      "spec_b t W bx + spec_c t W bx - spec_a t W bx \<le> INT_MAX"
    and "INT_MIN \<le> spec_window_sum t W bx" "spec_window_sum t W bx \<le> INT_MAX"
  shows "window_sum t W bx = Inr (spec_window_sum t W bx)"
proof -
  have W: "W \<le> INT_MAX" and H: "H \<le> INT_MAX"
    using dims_in_int [of W H] assms by simp_all
  have a: "corner_a t W bx = Inr (spec_a t W bx)"
  proof (cases "y_min bx < 1 \<or> x_min bx < 1")
    case True
    then show ?thesis using assms(1,4) by (auto simp: corner_a_def spec_a_def)
  next
    case False
    then have "bnd (idx (y_min bx - 1) (x_min bx - 1) W 1) (rd t)
                 = Inr (cell t W (y_min bx - 1) (x_min bx - 1))"
      using assms by (intro rd_cell [where H = H]) simp_all
    then show ?thesis
      using False assms(1-6) W H
      by (simp add: corner_a_def spec_a_def c_sub_def INT_MIN_def)
  qed
  have b: "corner_b t W bx = Inr (spec_b t W bx)"
  proof (cases "y_min bx < 1")
    case True
    then show ?thesis using assms(4) by (auto simp: corner_b_def spec_b_def)
  next
    case False
    then have "bnd (idx (y_min bx - 1) (x_max bx) W 1) (rd t)
                 = Inr (cell t W (y_min bx - 1) (x_max bx))"
      using assms by (intro rd_cell [where H = H]) simp_all
    then show ?thesis
      using False assms(1-6) W H
      by (simp add: corner_b_def spec_b_def c_sub_def INT_MIN_def)
  qed
  have c: "corner_c t W bx = Inr (spec_c t W bx)"
  proof (cases "x_min bx < 1")
    case True
    then show ?thesis using assms(1) by (auto simp: corner_c_def spec_c_def)
  next
    case False
    then have "bnd (idx (y_max bx) (x_min bx - 1) W 1) (rd t)
                 = Inr (cell t W (y_max bx) (x_min bx - 1))"
      using assms by (intro rd_cell [where H = H]) simp_all
    then show ?thesis
      using False assms(1-6) W H
      by (simp add: corner_c_def spec_c_def c_sub_def INT_MIN_def)
  qed
  have d: "corner_d t W bx = Inr (spec_d t W bx)"
    unfolding corner_d_def spec_d_def
    using assms by (intro rd_cell [where H = H]) simp_all
  have s1: "c_add (spec_b t W bx) (spec_c t W bx) = Inr (spec_b t W bx + spec_c t W bx)"
    using assms(9,10) by (simp add: c_add_def)
  have s2: "c_sub (spec_b t W bx + spec_c t W bx) (spec_a t W bx)
              = Inr (spec_b t W bx + spec_c t W bx - spec_a t W bx)"
    using assms(11,12) by (simp add: c_sub_def)
  have eq: "spec_d t W bx - (spec_b t W bx + spec_c t W bx - spec_a t W bx) = spec_window_sum t W bx"
    by (simp add: spec_window_sum_def)
  have s3: "c_sub (spec_d t W bx) (spec_b t W bx + spec_c t W bx - spec_a t W bx)
              = Inr (spec_window_sum t W bx)"
    using assms(13,14) by (simp add: c_sub_def eq)
  show ?thesis
    by (simp only: window_sum_def a b c d s1 s2 s3 bnd_Inr)
qed

section \<open>Single-precision rounding\<close>

lemma round_half_even_of_int [simp]: "round_half_even (of_int m) = m"
  by (simp add: round_half_even_def)

lemma round_half_even_upper: "of_int (round_half_even x) \<le> x + 1 / 2"
  unfolding round_half_even_def Let_def by (auto; linarith)

lemma round_half_even_lower: "x - 1 / 2 \<le> of_int (round_half_even x)"
  unfolding round_half_even_def Let_def by (auto; linarith)

lemma round_half_even_ge: "of_int n \<le> x \<Longrightarrow> n \<le> round_half_even x"
  unfolding round_half_even_def Let_def by (auto simp: le_floor_iff; linarith)

lemma round_half_even_le:
  assumes "x \<le> of_int n"
  shows "round_half_even x \<le> n"
proof -
  have f: "\<lfloor>x\<rfloor> \<le> n" using assms by (simp add: floor_le_iff)
  show ?thesis
  proof (cases "x - of_int \<lfloor>x\<rfloor> < 1 / 2")
    case True
    then show ?thesis using f by (simp add: round_half_even_def)
  next
    case False
    then have "of_int \<lfloor>x\<rfloor> < x" by linarith
    with assms have "(of_int \<lfloor>x\<rfloor> :: rat) < of_int n" by linarith
    then have "\<lfloor>x\<rfloor> < n" by simp
    then show ?thesis by (simp add: round_half_even_def Let_def)
  qed
qed

lemma quotient_of_pos:
  assumes "0 < x" and "quotient_of x = (n, d)"
  shows "0 < n" "0 < d" "x = of_int n / of_int d"
proof -
  show d: "0 < d" using assms(2) by (rule quotient_of_denom_pos)
  show x: "x = of_int n / of_int d" using assms(2) by (rule quotient_of_div)
  from assms(1) x d show "0 < n" by (simp add: zero_less_divide_iff)
qed

lemma two_powi_pos [simp]: "0 < (2 :: rat) powi k"
  by (simp add: power_int_def)

lemma bitlen_powi_bounds:
  assumes "0 < n"
  shows "(2 :: rat) powi (bitlen n - 1) \<le> of_int n" "of_int n < (2 :: rat) powi bitlen n"
proof -
  from bitlen_bounds [OF assms] have b: "2 ^ nat (bitlen n - 1) \<le> n" "n < 2 ^ nat (bitlen n)"
    by simp_all
  have ge1: "1 \<le> bitlen n" using assms bitlen_eq_zero_iff [of n] bitlen_nonneg [of n] by linarith
  have "(of_int (2 ^ nat (bitlen n - 1)) :: rat) \<le> of_int n" using b(1) by (simp only: of_int_le_iff)
  then show "(2 :: rat) powi (bitlen n - 1) \<le> of_int n"
    using ge1 by (simp add: power_int_def)
  have "(of_int n :: rat) < of_int (2 ^ nat (bitlen n))" using b(2) by (simp only: of_int_less_iff)
  then show "of_int n < (2 :: rat) powi bitlen n"
    using ge1 by (simp add: power_int_def)
qed

lemma ilog2_bounds:
  assumes "0 < x"
  shows "(2 :: rat) powi ilog2 x \<le> x" and "x < (2 :: rat) powi (ilog2 x + 1)"
proof -
  obtain n d where nd: "quotient_of x = (n, d)" by (cases "quotient_of x")
  from quotient_of_pos [OF assms nd] have n: "0 < n" and d: "0 < d" and x: "x = of_int n / of_int d"
    by simp_all
  let ?k = "bitlen n - bitlen d"
  have il: "ilog2 x = (if (2 :: rat) powi ?k \<le> x then ?k else ?k - 1)"
    by (simp add: ilog2_def nd)
  note bn = bitlen_powi_bounds [OF n] and bd = bitlen_powi_bounds [OF d]
  have dpos: "(0 :: rat) < of_int d" using d by simp
  have lo: "(2 :: rat) powi (?k - 1) \<le> x"
  proof -
    have "(2 :: rat) powi (?k - 1) = 2 powi (bitlen n - 1) / 2 powi bitlen d"
      by (simp add: power_int_diff [symmetric] algebra_simps)
    also have "\<dots> \<le> of_int n / 2 powi bitlen d"
      using bn(1) by (simp add: divide_right_mono)
    also have "\<dots> \<le> of_int n / of_int d"
      using bd(2) n dpos by (intro divide_left_mono) (simp_all add: less_imp_le)
    finally show ?thesis by (simp add: x)
  qed
  have hi: "x < (2 :: rat) powi (?k + 1)"
  proof -
    have "x = of_int n / of_int d" by (rule x)
    also have "\<dots> < 2 powi bitlen n / of_int d"
      using bn(2) dpos by (simp add: divide_strict_right_mono)
    also have "\<dots> \<le> 2 powi bitlen n / 2 powi (bitlen d - 1)"
      using bd(1) dpos by (intro divide_left_mono) (simp_all add: less_imp_le)
    also have "\<dots> = 2 powi (?k + 1)"
      by (simp add: power_int_diff [symmetric] algebra_simps)
    finally show ?thesis .
  qed
  show "(2 :: rat) powi ilog2 x \<le> x" using lo by (simp add: il)
  show "x < (2 :: rat) powi (ilog2 x + 1)" using hi by (auto simp: il not_le)
qed


lemma f32_round_pos_eq:
  "0 < x \<Longrightarrow> f32_round x
     = of_int (round_half_even (x / 2 powi (ilog2 x - 23))) * 2 powi (ilog2 x - 23)"
  by (simp add: f32_round_def Let_def)

lemma f32_round_minus: "f32_round (- x) = - f32_round x"
  by (simp add: f32_round_def Let_def)

lemma significand_ge:
  assumes "0 < x"
  shows "2 ^ 23 \<le> round_half_even (x / 2 powi (ilog2 x - 23))"
proof -
  have "(2 :: rat) powi ilog2 x / 2 powi (ilog2 x - 23) \<le> x / 2 powi (ilog2 x - 23)"
    using ilog2_bounds(1) [OF assms] by (simp add: divide_right_mono)
  moreover have "(2 :: rat) powi ilog2 x / 2 powi (ilog2 x - 23) = 2 powi 23"
    by (simp add: power_int_diff [symmetric])
  ultimately have "of_int (2 ^ 23) \<le> x / 2 powi (ilog2 x - 23)"
    by simp
  then show ?thesis by (rule round_half_even_ge)
qed

lemma f32_round_pos: "0 < x \<Longrightarrow> 0 < f32_round x"
  using significand_ge [of x] by (simp add: f32_round_pos_eq zero_less_mult_iff)

lemma f32_round_eq_0_iff: "f32_round x = 0 \<longleftrightarrow> x = 0"
proof (cases "x = 0")
  case True
  then show ?thesis by (simp add: f32_round_def)
next
  case False
  then consider "0 < x" | "0 < - x" by linarith
  then show ?thesis
  proof cases
    case 1
    then show ?thesis using f32_round_pos [of x] by simp
  next
    case 2
    then show ?thesis using f32_round_pos [of "- x"] by (simp add: f32_round_minus)
  qed
qed

lemma f32_round_exact:
  assumes "0 < x" and "x / 2 powi (ilog2 x - 23) = of_int m"
  shows "f32_round x = x"
proof -
  have "f32_round x = of_int m * 2 powi (ilog2 x - 23)"
    by (simp add: f32_round_pos_eq [OF assms(1)] assms(2))
  also have "\<dots> = x"
    using assms(2) by (simp add: field_simps)
  finally show ?thesis .
qed

lemma ilog2_less:
  assumes "0 < x" and "x < 2 ^ n"
  shows "ilog2 x < int n"
proof (rule ccontr)
  assume "\<not> ilog2 x < int n"
  then have "int n \<le> ilog2 x" by simp
  then have "(2 :: rat) powi int n \<le> 2 powi ilog2 x"
    by (intro power_int_increasing) simp_all
  with ilog2_bounds(1) [OF assms(1)] assms(2) show False by simp
qed

lemma f32_of_int_exact_pos:
  assumes "0 < i" and "i < 2 ^ 24"
  shows "f32_of_int i = of_int i"
proof -
  let ?x = "of_int i :: rat"
  have x: "0 < ?x" using assms(1) by simp
  have "?x < of_int (2 ^ 24)" using assms(2) by (simp only: of_int_less_iff)
  then have "?x < 2 ^ 24" by simp
  then have e: "ilog2 ?x < 24" using ilog2_less [OF x, of 24] by simp
  define k where "k = nat (23 - ilog2 ?x)"
  have pw: "(2 :: rat) powi (ilog2 ?x - 23) = 1 / 2 ^ k"
    using e by (simp add: power_int_def k_def power_one_over inverse_eq_divide)
  have "?x / 2 powi (ilog2 ?x - 23) = of_int (i * 2 ^ k)"
    by (simp add: pw)
  from f32_round_exact [OF x this] show ?thesis by (simp add: f32_of_int_def)
qed

lemma f32_of_int_exact:
  assumes "- (2 ^ 24) < i" and "i < 2 ^ 24"
  shows "f32_of_int i = of_int i"
proof -
  consider "i = 0" | "0 < i" | "0 < - i" by linarith
  then show ?thesis
  proof cases
    case 1
    then show ?thesis by (simp add: f32_of_int_def f32_round_def)
  next
    case 2
    then show ?thesis using assms by (simp add: f32_of_int_exact_pos)
  next
    case 3
    with assms have "f32_of_int (- i) = of_int (- i)" by (intro f32_of_int_exact_pos) simp_all
    then show ?thesis
      by (simp add: f32_of_int_def f32_round_minus)
  qed
qed


lemma f32_quotient_floor:
  assumes "0 \<le> s" "0 < p" "p < 131072" "s < 256 * p"
  shows "\<lfloor>f32_round (of_int s / of_int p)\<rfloor> = s div p"
proof (cases "s = 0")
  case True
  then show ?thesis by (simp add: f32_round_def)
next
  case False
  with assms(1) have spos: "0 < s" by simp
  let ?x = "of_int s / of_int p :: rat"
  let ?q = "s div p"
  have ppos: "(0 :: rat) < of_int p" using assms(2) by simp
  have x: "0 < ?x" using spos ppos by simp
  have "(of_int s :: rat) < of_int (256 * p)" using assms(4) by (simp only: of_int_less_iff)
  then have "?x < 256" using ppos by (simp add: field_simps)
  then have "?x < 2 ^ 8" by simp
  then have e: "ilog2 ?x < 8" using ilog2_less [OF x, of 8] by simp
  define k where "k = nat (23 - ilog2 ?x)"
  have k: "16 \<le> k" using e by (simp add: k_def)
  have pw: "(2 :: rat) powi (ilog2 ?x - 23) = 1 / 2 ^ k"
    using e by (simp add: power_int_def k_def power_one_over inverse_eq_divide)
  define r where "r = round_half_even (?x * 2 ^ k)"
  have y: "f32_round ?x = of_int r / 2 ^ k"
    by (simp add: f32_round_pos_eq [OF x] pw r_def)
  have q: "of_int ?q \<le> ?x" "?x < of_int ?q + 1"
    using floor_divide_of_int_eq [of s p, where ?'a = rat] of_int_floor_le [of ?x]
      floor_correct [of ?x] by simp_all
  \<comment> \<open>the quotient is at least \<open>1 / p\<close> below the next integer\<close>
  have "s = ?q * p + s mod p" by simp
  moreover have "s mod p \<le> p - 1" using assms(2) pos_mod_bound [of p s] by linarith
  ultimately have "s \<le> ?q * p + p - 1" by linarith
  then have "(of_int s :: rat) \<le> of_int (?q * p + p - 1)" by (simp only: of_int_le_iff)
  then have gap: "?x \<le> of_int ?q + 1 - 1 / of_int p"
    using ppos by (simp add: field_simps)
  \<comment> \<open>and \<open>1 / p\<close> is more than half a unit in the last place\<close>
  have "(2 :: int) ^ 17 \<le> 2 * 2 ^ k"
    using k power_increasing [of 16 k "2 :: int"] by simp
  with assms(3) have "p < 2 * 2 ^ k" by simp
  then have "(of_int p :: rat) < of_int (2 * 2 ^ k)" by (simp only: of_int_less_iff)
  then have half: "1 / 2 < (2 :: rat) ^ k / of_int p"
    using ppos by (simp add: field_simps)
  have lo: "?q * 2 ^ k \<le> r"
    unfolding r_def
  proof (rule round_half_even_ge)
    have "of_int ?q * 2 ^ k \<le> ?x * 2 ^ k"
      using q(1) by (intro mult_right_mono) simp_all
    then show "of_int (?q * 2 ^ k) \<le> ?x * 2 ^ k" by simp
  qed
  have "?x * 2 ^ k \<le> (of_int ?q + 1 - 1 / of_int p) * 2 ^ k"
    using gap by (intro mult_right_mono) simp_all
  also have "\<dots> = (of_int ?q + 1) * 2 ^ k - 2 ^ k / of_int p"
    by (simp add: algebra_simps)
  also have "\<dots> < (of_int ?q + 1) * 2 ^ k - 1 / 2"
    using half by simp
  finally have "?x * 2 ^ k + 1 / 2 < (of_int ?q + 1) * 2 ^ k" by simp
  with round_half_even_upper [of "?x * 2 ^ k"]
  have hi: "(of_int r :: rat) < (of_int ?q + 1) * 2 ^ k"
    unfolding r_def by linarith
  have "(of_int (?q * 2 ^ k) :: rat) \<le> of_int r"
    using lo by (simp only: of_int_le_iff)
  then have "(of_int ?q :: rat) * 2 ^ k \<le> of_int r"
    by simp
  then have y_lo: "of_int ?q \<le> f32_round ?x"
    by (simp add: y field_simps)
  have y_hi: "f32_round ?x < of_int ?q + 1"
    using hi by (simp add: y field_simps)
  from y_lo y_hi show ?thesis by (simp add: floor_unique)
qed

lemma f32_round_nonneg: "0 \<le> x \<Longrightarrow> 0 \<le> f32_round x"
  using f32_round_pos [of x] by (cases "x = 0") (simp_all add: f32_round_def less_imp_le)

lemma average_float:
  assumes "pixels \<noteq> 0"
    and "0 \<le> trunc_toward_zero (f32_round (f32_of_int ws / f32_of_int pixels))"
    and "trunc_toward_zero (f32_round (f32_of_int ws / f32_of_int pixels)) \<le> 255"
  shows "average ws pixels
           = Inr (word_of_int (trunc_toward_zero (f32_round (f32_of_int ws / f32_of_int pixels))))"
proof -
  have "f32_of_int pixels \<noteq> 0"
    using assms(1) by (simp add: f32_of_int_def f32_round_eq_0_iff)
  then show ?thesis
    using assms(2,3) by (simp add: average_def f32_div_def u8_of_f32_def)
qed

lemma div_le_255:
  assumes "0 < (p::int)" "s < 256 * p"
  shows "s div p \<le> 255"
proof (rule ccontr)
  assume "\<not> s div p \<le> 255"
  then have "256 \<le> s div p" by simp
  then have "256 * p \<le> (s div p) * p"
    using assms(1) by (intro mult_right_mono) simp_all
  moreover have "s = (s div p) * p + s mod p" by simp
  moreover have "0 \<le> s mod p" using assms(1) by simp
  ultimately show False using assms(2) by linarith
qed

lemma average_float_average:
  assumes "pixels \<noteq> 0" "byte_in_range ws pixels"
  shows "average ws pixels = Inr (word_of_int (float_average ws pixels))"
  using assms average_float [of pixels ws] by (simp add: byte_in_range_def float_average_def)

lemma float_average_exact:
  assumes "0 \<le> ws" "ws < 16777216" "0 < pixels" "pixels < 131072" "ws < 256 * pixels"
  shows "float_average ws pixels = ws div pixels"
    and "byte_in_range ws pixels"
proof -
  have ws: "f32_of_int ws = of_int ws" using assms(1,2) by (intro f32_of_int_exact) simp_all
  have px: "f32_of_int pixels = of_int pixels" using assms(3,4) by (intro f32_of_int_exact) simp_all
  let ?q = "f32_round (of_int ws / of_int pixels)"
  have "0 \<le> ?q" using assms(1,3) by (intro f32_round_nonneg) simp
  then show eq: "float_average ws pixels = ws div pixels"
    using f32_quotient_floor [OF assms(1,3,4,5)]
    by (simp add: float_average_def trunc_toward_zero_def ws px)
  have "0 \<le> ws div pixels" using assms(1,3) by (simp add: pos_imp_zdiv_nonneg_iff)
  moreover have "ws div pixels \<le> 255" using assms(3,5) by (rule div_le_255)
  ultimately show "byte_in_range ws pixels" by (simp add: byte_in_range_def eq)
qed

lemma uint_byte:
  "0 \<le> v \<Longrightarrow> v \<le> 255 \<Longrightarrow> uint (word_of_int v :: u8) = v"
  by (simp add: uint_word_of_int take_bit_int_eq_self)

section \<open>The two passes over the tables\<close>

subsection \<open>Cells and updates\<close>

lemma lin_index_inj:
  fixes W :: int
  assumes "0 \<le> c" "c < W" "0 \<le> c'" "c' < W" "r * W + c = r' * W + c'"
  shows "r = r' \<and> c = c'"
proof -
  have "(r * W + c) div W = r" "(r' * W + c') div W = r'"
    using assms(1-4) by (simp_all add: div_pos_pos_trivial)
  with assms(5) have "r = r'" by simp
  with assms(5) show ?thesis by simp
qed

lemma table_is_length: "table_is W H t f \<Longrightarrow> length t = nat (W * H)"
  by (simp add: table_is_def)

lemma table_is_cell:
  "table_is W H t f \<Longrightarrow> 0 \<le> r \<Longrightarrow> r < H \<Longrightarrow> 0 \<le> c \<Longrightarrow> c < W \<Longrightarrow> cell t W r c = f r c"
  by (simp add: table_is_def)

lemma table_is_cong:
  assumes "table_is W H t f"
    and "\<And>r c. 0 \<le> r \<Longrightarrow> r < H \<Longrightarrow> 0 \<le> c \<Longrightarrow> c < W \<Longrightarrow> f r c = g r c"
  shows "table_is W H t g"
  using assms by (simp add: table_is_def)

lemma table_is_self: "length t = nat (W * H) \<Longrightarrow> table_is W H t (cell t W)"
  by (simp add: table_is_def)

lemma table_is_update:
  assumes "table_is W H t f" and "0 \<le> r" "r < H" "0 \<le> c" "c < W" and "W * H \<le> INT_MAX"
  shows "table_is W H (t[nat (r * W + c) := v]) (\<lambda>r' c'. if r' = r \<and> c' = c then v else f r' c')"
  unfolding table_is_def
proof (intro conjI allI impI)
  show "length (t[nat (r * W + c) := v]) = nat (W * H)"
    using assms(1) by (simp add: table_is_def)
next
  fix r' c'
  assume rc: "0 \<le> r' \<and> r' < H \<and> 0 \<le> c' \<and> c' < W"
  note i = idx_ok(2,3) [OF assms(2-6)]
  have i': "0 \<le> r' * W + c'" "r' * W + c' < W * H"
    using idx_ok(2,3) [of r' H c' W] rc assms(6) by simp_all
  have len: "length t = nat (W * H)" using assms(1) by (simp add: table_is_def)
  show "cell (t[nat (r * W + c) := v]) W r' c' = (if r' = r \<and> c' = c then v else f r' c')"
  proof (cases "r' = r \<and> c' = c")
    case True
    then show ?thesis using i len by (simp add: cell_def)
  next
    case False
    then have "r * W + c \<noteq> r' * W + c'"
      using lin_index_inj [of c W c' r r'] assms(4,5) rc by auto
    then have "nat (r * W + c) \<noteq> nat (r' * W + c')"
      using i i' by simp
    then have "cell (t[nat (r * W + c) := v]) W r' c' = cell t W r' c'"
      by (simp add: cell_def)
    also have "\<dots> = f r' c'" using assms(1) rc by (simp add: table_is_def)
    finally show ?thesis using False by auto
  qed
qed

lemma sum_upto_last:
  fixes f :: "int \<Rightarrow> int"
  assumes "0 \<le> c"
  shows "(\<Sum>k = 0..c. f k) = (\<Sum>k = 0..c - 1. f k) + f c"
proof -
  have "{0..c} = insert c {0..c - 1}" using assms by auto
  then show ?thesis by simp
qed

lemma pixel_read:
  assumes "valid_image img" "W = width img" "H = height img"
    and "0 \<le> row" "row < H" "0 \<le> col" "col < W" "0 \<le> chan" "chan < 3"
  shows "ImageGetPixel img col row chan = Inr (word_of_int (pixel img chan row col))"
    and "uint (word_of_int (pixel img chan row col) :: u8) = pixel img chan row col"
    and "0 \<le> pixel img chan row col" "pixel img chan row col \<le> 255"
proof -
  have "(row + 1) * W \<le> H * W"
    using assms by (intro mult_right_mono) simp_all
  then have hi: "row * W + col < W * H"
    using assms(7) by (simp add: algebra_simps)
  have "0 \<le> row * W" using assms by simp
  then have lo: "0 \<le> row * W + col" using assms(6) by simp
  have off: "0 \<le> pixel_offset img col row chan" "pixel_offset img col row chan < W * H * 3"
    using lo hi assms(2,8,9) by (simp_all add: pixel_offset_def)
  have len: "int (length (data img)) = W * H * 3"
    using assms(1-3) off by (simp add: valid_image_def)
  show "ImageGetPixel img col row chan = Inr (word_of_int (pixel img chan row col))"
    using off len by (simp add: ImageGetPixel_def pixel_def)
  show "uint (word_of_int (pixel img chan row col) :: u8) = pixel img chan row col"
    by (simp add: pixel_def)
  show "0 \<le> pixel img chan row col" by (simp add: pixel_def)
  have "uint (data img ! nat (pixel_offset img col row chan)) < 2 ^ LENGTH(8)"
    by (rule uint_lt2p)
  then show "pixel img chan row col \<le> 255" by (simp add: pixel_def)
qed

subsection \<open>The first pass\<close>

lemma row_sums_0: "row_sums mem img chan r 0 = cell mem (width img) r 0"
  by (simp add: row_sums_def effective_pixel_def)

lemma row_sums_step:
  "0 < c \<Longrightarrow> row_sums mem img chan r c = pixel img chan r c + row_sums mem img chan r (c - 1)"
  by (simp add: row_sums_def sum_upto_last [of c] effective_pixel_def)

lemma rect_sums_0: "rect_sums mem img chan 0 c = row_sums mem img chan 0 c"
  by (simp add: rect_sums_def)

lemma rect_sums_step:
  "0 < r \<Longrightarrow> rect_sums mem img chan r c = row_sums mem img chan r c + rect_sums mem img chan (r - 1) c"
  by (simp add: rect_sums_def sum_upto_last [of r])

lemma phase1_cell_step:
  assumes img: "valid_image img" "W = width img" "H = height img" "W * H \<le> INT_MAX"
    and rc: "0 \<le> row" "row < H" "0 < col" "col < W" "0 \<le> chan" "chan < 3"
    and t: "table_is W H t (during_phase1 mem img chan row col)"
    and ov: "INT_MIN \<le> row_sums mem img chan row col" "row_sums mem img chan row col \<le> INT_MAX"
  shows "\<exists>t'. phase1_cell img W row col chan t = Inr t'
           \<and> table_is W H t' (during_phase1 mem img chan row (col + 1))"
proof -
  have W: "W \<le> INT_MAX" and H: "H \<le> INT_MAX"
    using dims_in_int [of W H] img rc by simp_all
  have col0: "0 \<le> col" "0 \<le> col - 1" "col - 1 < W" using rc by simp_all
  note px = pixel_read [OF img(1-3) rc(1,2) col0(1) rc(4-6)]
  have len: "length t = nat (W * H)" using t by (rule table_is_length)
  have left: "cell t W row (col - 1) = row_sums mem img chan row (col - 1)"
    using table_is_cell [OF t rc(1,2) col0(2,3)] by (simp add: during_phase1_def)
  have v: "pixel img chan row col + cell t W row (col - 1) = row_sums mem img chan row col"
    using rc(3) by (simp add: left row_sums_step)
  have s1: "c_sub col 1 = Inr (col - 1)"
    using rc W by (simp add: c_sub_def INT_MIN_def)
  have s2: "bnd (idx row (col - 1) W 1) (rd t) = Inr (cell t W row (col - 1))"
    using rc(1,2) col0(2,3) img(4) len by (rule rd_cell)
  have s2': "idx row (col - 1) W 1 = Inr (row * W + (col - 1))"
       "rd t (row * W + (col - 1)) = Inr (cell t W row (col - 1))"
    using idx_ok [OF rc(1,2) col0(2,3) img(4)] len by (simp_all add: rd_def cell_def)
  have s3: "c_add (uint (word_of_int (pixel img chan row col) :: u8)) (cell t W row (col - 1))
              = Inr (row_sums mem img chan row col)"
    using ov by (simp add: c_add_def px(2) v)
  note i = idx_ok [OF rc(1,2) col0(1) rc(4) img(4)]
  have s4: "wr t (row * W + col) (row_sums mem img chan row col)
              = Inr (t[nat (row * W + col) := row_sums mem img chan row col])"
    using i len by (simp add: wr_def)
  have run: "phase1_cell img W row col chan t
               = Inr (t[nat (row * W + col) := row_sums mem img chan row col])"
    by (simp add: phase1_cell_def px(1) s1 s2' s3 i(1) s4)
  have "table_is W H (t[nat (row * W + col) := row_sums mem img chan row col])
          (\<lambda>r' c'. if r' = row \<and> c' = col then row_sums mem img chan row col
                    else during_phase1 mem img chan row col r' c')"
    using t rc(1,2) col0(1) rc(4) img(4) by (rule table_is_update)
  then have "table_is W H (t[nat (row * W + col) := row_sums mem img chan row col])
               (during_phase1 mem img chan row (col + 1))"
    by (rule table_is_cong) (auto simp: during_phase1_def)
  with run show ?thesis by simp
qed

lemma state_is_cong:
  assumes "state_is img out f s"
    and "\<And>chan r c. 0 \<le> chan \<Longrightarrow> chan < 3 \<Longrightarrow> 0 \<le> r \<Longrightarrow> r < height img \<Longrightarrow> 0 \<le> c \<Longrightarrow> c < width img
            \<Longrightarrow> f chan r c = g chan r c"
  shows "state_is img out g s"
  using assms(1) unfolding state_is_def
  by (auto intro!: assms(2) elim!: table_is_cong)

lemma phase1_body_step:
  assumes img: "valid_image img" "W = width img" "H = height img" "W * H \<le> INT_MAX"
    and rc: "0 \<le> row" "row < H" "0 < col" "col < W"
    and s: "state_is img out (\<lambda>chan. during_phase1 (mem chan) img chan row col) s"
    and ov: "\<And>chan. 0 \<le> chan \<Longrightarrow> chan < 3 \<Longrightarrow>
               INT_MIN \<le> row_sums (mem chan) img chan row col
               \<and> row_sums (mem chan) img chan row col \<le> INT_MAX"
  shows "\<exists>s'. phase1_body W row col s = Inr s'
           \<and> state_is img out (\<lambda>chan. during_phase1 (mem chan) img chan row (col + 1)) s'"
proof -
  from s have in_s: "img_in s = img" and out_s: "img_out s = out"
    and tr: "table_is W H (sums_r s) (during_phase1 (mem 0) img 0 row col)"
    and tg: "table_is W H (sums_g s) (during_phase1 (mem 1) img 1 row col)"
    and tb: "table_is W H (sums_b s) (during_phase1 (mem 2) img 2 row col)"
    by (simp_all add: state_is_def img(2,3))
  obtain r' where r': "phase1_cell img W row col 0 (sums_r s) = Inr r'"
      "table_is W H r' (during_phase1 (mem 0) img 0 row (col + 1))"
    using phase1_cell_step [OF img rc _ _ tr] ov [of 0] by auto
  obtain g' where g': "phase1_cell img W row col 1 (sums_g s) = Inr g'"
      "table_is W H g' (during_phase1 (mem 1) img 1 row (col + 1))"
    using phase1_cell_step [OF img rc _ _ tg] ov [of 1] by auto
  obtain b' where b': "phase1_cell img W row col 2 (sums_b s) = Inr b'"
      "table_is W H b' (during_phase1 (mem 2) img 2 row (col + 1))"
    using phase1_cell_step [OF img rc _ _ tb] ov [of 2] by auto
  have "phase1_body W row col s = Inr (s\<lparr>sums_r := r', sums_g := g', sums_b := b'\<rparr>)"
    by (simp add: phase1_body_def in_s r'(1) g'(1) b'(1))
  moreover have "state_is img out (\<lambda>chan. during_phase1 (mem chan) img chan row (col + 1))
                   (s\<lparr>sums_r := r', sums_g := g', sums_b := b'\<rparr>)"
    using r'(2) g'(2) b'(2) in_s out_s by (simp add: state_is_def img(2,3))
  ultimately show ?thesis by simp
qed

lemma phase1_row:
  assumes img: "valid_image img" "W = width img" "H = height img" "W * H \<le> INT_MAX"
    and r: "0 \<le> row" "row < H" and n: "1 \<le> n" "n \<le> W"
    and s: "state_is img out (\<lambda>chan. during_phase1 (mem chan) img chan row 1) s"
    and ov: "\<And>chan col. 0 \<le> chan \<Longrightarrow> chan < 3 \<Longrightarrow> 0 < col \<Longrightarrow> col < n \<Longrightarrow>
               INT_MIN \<le> row_sums (mem chan) img chan row col
               \<and> row_sums (mem chan) img chan row col \<le> INT_MAX"
  shows "\<exists>s'. for_loop 1 n (phase1_body W row) s = Inr s'
           \<and> state_is img out (\<lambda>chan. during_phase1 (mem chan) img chan row n) s'"
proof (rule for_loop_inv
    [where I = "\<lambda>j. state_is img out (\<lambda>chan. during_phase1 (mem chan) img chan row j)"])
  show "state_is img out (\<lambda>chan. during_phase1 (mem chan) img chan row 1) s" by (rule s)
  show "1 \<le> n" by (rule n)
next
  fix j t
  assume j: "1 \<le> j" "j < n"
    and t: "state_is img out (\<lambda>chan. during_phase1 (mem chan) img chan row j) t"
  show "\<exists>t'. phase1_body W row j t = Inr t'
          \<and> state_is img out (\<lambda>chan. during_phase1 (mem chan) img chan row (j + 1)) t'"
  proof (rule phase1_body_step [OF img r _ _ t])
    show "0 < j" "j < W" using j n by simp_all
    show "INT_MIN \<le> row_sums (mem chan) img chan row j \<and> row_sums (mem chan) img chan row j \<le> INT_MAX"
      if "0 \<le> chan" "chan < 3" for chan
      using ov [of chan j] that j by simp
  qed
qed

lemma during_phase1_start:
  "0 \<le> c \<Longrightarrow> during_phase1 mem img chan i 1 r c = during_phase1 mem img chan i 0 r c"
  by (cases "c = 0") (auto simp: during_phase1_def row_sums_0)

lemma phase1_rows:
  assumes img: "valid_image img" "W = width img" "H = height img" "W * H \<le> INT_MAX"
    and s: "state_is img out (\<lambda>chan. cell (mem chan) W) s"
    and ov: "\<And>chan row col. 0 \<le> chan \<Longrightarrow> chan < 3 \<Longrightarrow> 0 \<le> row \<Longrightarrow> row < H \<Longrightarrow> 0 < col \<Longrightarrow> col < W \<Longrightarrow>
               INT_MIN \<le> row_sums (mem chan) img chan row col
               \<and> row_sums (mem chan) img chan row col \<le> INT_MAX"
  shows "\<exists>s'. phase1 W H s = Inr s'
           \<and> state_is img out (\<lambda>chan. row_sums (mem chan) img chan) s'"
proof -
  have W: "0 < W" and H: "0 < H" using img(1-3) by (simp_all add: valid_image_def)
  have "\<exists>s'. for_loop 0 H (\<lambda>row. for_loop 1 W (phase1_body W row)) s = Inr s'
          \<and> state_is img out (\<lambda>chan. during_phase1 (mem chan) img chan H 0) s'"
  proof (rule for_loop_inv
      [where I = "\<lambda>i. state_is img out (\<lambda>chan. during_phase1 (mem chan) img chan i 0)"])
    show "state_is img out (\<lambda>chan. during_phase1 (mem chan) img chan 0 0) s"
      using s by (rule state_is_cong) (simp add: during_phase1_def img(2))
    show "0 \<le> H" using H by simp
  next
    fix i t
    assume i: "0 \<le> i" "i < H"
      and t: "state_is img out (\<lambda>chan. during_phase1 (mem chan) img chan i 0) t"
    have t1: "state_is img out (\<lambda>chan. during_phase1 (mem chan) img chan i 1) t"
      using t by (rule state_is_cong) (simp add: during_phase1_start)
    obtain t' where t': "for_loop 1 W (phase1_body W i) t = Inr t'"
        "state_is img out (\<lambda>chan. during_phase1 (mem chan) img chan i W) t'"
      using phase1_row [OF img i _ _ t1, of W] W ov i by auto
    have "state_is img out (\<lambda>chan. during_phase1 (mem chan) img chan (i + 1) 0) t'"
      using t'(2) by (rule state_is_cong) (auto simp: during_phase1_def img(2))
    with t'(1) show "\<exists>t'. for_loop 1 W (phase1_body W i) t = Inr t'
        \<and> state_is img out (\<lambda>chan. during_phase1 (mem chan) img chan (i + 1) 0) t'"
      by simp
  qed
  then obtain s' where s': "for_loop 0 H (\<lambda>row. for_loop 1 W (phase1_body W row)) s = Inr s'"
      "state_is img out (\<lambda>chan. during_phase1 (mem chan) img chan H 0) s'"
    by blast
  have "state_is img out (\<lambda>chan. row_sums (mem chan) img chan) s'"
    using s'(2) by (rule state_is_cong) (simp add: during_phase1_def img(3))
  with s'(1) show ?thesis by (simp add: phase1_def)
qed

subsection \<open>The second pass\<close>

lemma phase2_cell_step:
  assumes img: "valid_image img" "W = width img" "H = height img" "W * H \<le> INT_MAX"
    and rc: "0 < row" "row < H" "0 \<le> col" "col < W"
    and t: "table_is W H t (during_phase2 mem img chan col row)"
    and ov: "INT_MIN \<le> rect_sums mem img chan row col" "rect_sums mem img chan row col \<le> INT_MAX"
  shows "\<exists>t'. phase2_cell W row col t = Inr t'
           \<and> table_is W H t' (during_phase2 mem img chan col (row + 1))"
proof -
  have W: "W \<le> INT_MAX" and H: "H \<le> INT_MAX"
    using dims_in_int [of W H] img rc by simp_all
  have row0: "0 \<le> row" "0 \<le> row - 1" "row - 1 < H" using rc by simp_all
  have len: "length t = nat (W * H)" using t by (rule table_is_length)
  have cur: "cell t W row col = row_sums mem img chan row col"
    using table_is_cell [OF t row0(1) rc(2-4)] by (simp add: during_phase2_def)
  have above: "cell t W (row - 1) col = rect_sums mem img chan (row - 1) col"
    using table_is_cell [OF t row0(2,3) rc(3,4)] by (simp add: during_phase2_def)
  have v: "cell t W row col + cell t W (row - 1) col = rect_sums mem img chan row col"
    using rc(1) by (simp add: cur above rect_sums_step)
  note i = idx_ok [OF row0(1) rc(2-4) img(4)]
  note j = idx_ok [OF row0(2,3) rc(3,4) img(4)]
  have s1: "rd t (row * W + col) = Inr (cell t W row col)"
    using i len by (simp add: rd_def cell_def)
  have s2: "c_sub row 1 = Inr (row - 1)"
    using rc H by (simp add: c_sub_def INT_MIN_def)
  have s3: "rd t ((row - 1) * W + col) = Inr (cell t W (row - 1) col)"
    using j len by (simp add: rd_def cell_def)
  have s4: "c_add (cell t W row col) (cell t W (row - 1) col) = Inr (rect_sums mem img chan row col)"
    using ov by (simp add: c_add_def v)
  have s5: "wr t (row * W + col) (rect_sums mem img chan row col)
              = Inr (t[nat (row * W + col) := rect_sums mem img chan row col])"
    using i len by (simp add: wr_def)
  have run: "phase2_cell W row col t
               = Inr (t[nat (row * W + col) := rect_sums mem img chan row col])"
    by (simp add: phase2_cell_def i(1) s1 s2 j(1) s3 s4 s5)
  have "table_is W H (t[nat (row * W + col) := rect_sums mem img chan row col])
          (\<lambda>r' c'. if r' = row \<and> c' = col then rect_sums mem img chan row col
                    else during_phase2 mem img chan col row r' c')"
    using t row0(1) rc(2-4) img(4) by (rule table_is_update)
  then have "table_is W H (t[nat (row * W + col) := rect_sums mem img chan row col])
               (during_phase2 mem img chan col (row + 1))"
    by (rule table_is_cong) (auto simp: during_phase2_def)
  with run show ?thesis by simp
qed

lemma phase2_body_step:
  assumes img: "valid_image img" "W = width img" "H = height img" "W * H \<le> INT_MAX"
    and rc: "0 < row" "row < H" "0 \<le> col" "col < W"
    and s: "state_is img out (\<lambda>chan. during_phase2 (mem chan) img chan col row) s"
    and ov: "\<And>chan. 0 \<le> chan \<Longrightarrow> chan < 3 \<Longrightarrow>
               INT_MIN \<le> rect_sums (mem chan) img chan row col
               \<and> rect_sums (mem chan) img chan row col \<le> INT_MAX"
  shows "\<exists>s'. phase2_body W col row s = Inr s'
           \<and> state_is img out (\<lambda>chan. during_phase2 (mem chan) img chan col (row + 1)) s'"
proof -
  from s have in_s: "img_in s = img" and out_s: "img_out s = out"
    and tr: "table_is W H (sums_r s) (during_phase2 (mem 0) img 0 col row)"
    and tg: "table_is W H (sums_g s) (during_phase2 (mem 1) img 1 col row)"
    and tb: "table_is W H (sums_b s) (during_phase2 (mem 2) img 2 col row)"
    by (simp_all add: state_is_def img(2,3))
  obtain r' where r': "phase2_cell W row col (sums_r s) = Inr r'"
      "table_is W H r' (during_phase2 (mem 0) img 0 col (row + 1))"
    using phase2_cell_step [OF img rc tr] ov [of 0] by auto
  obtain g' where g': "phase2_cell W row col (sums_g s) = Inr g'"
      "table_is W H g' (during_phase2 (mem 1) img 1 col (row + 1))"
    using phase2_cell_step [OF img rc tg] ov [of 1] by auto
  obtain b' where b': "phase2_cell W row col (sums_b s) = Inr b'"
      "table_is W H b' (during_phase2 (mem 2) img 2 col (row + 1))"
    using phase2_cell_step [OF img rc tb] ov [of 2] by auto
  have "phase2_body W col row s = Inr (s\<lparr>sums_r := r', sums_g := g', sums_b := b'\<rparr>)"
    by (simp add: phase2_body_def r'(1) g'(1) b'(1))
  moreover have "state_is img out (\<lambda>chan. during_phase2 (mem chan) img chan col (row + 1))
                   (s\<lparr>sums_r := r', sums_g := g', sums_b := b'\<rparr>)"
    using r'(2) g'(2) b'(2) in_s out_s by (simp add: state_is_def img(2,3))
  ultimately show ?thesis by simp
qed

lemma phase2_col:
  assumes img: "valid_image img" "W = width img" "H = height img" "W * H \<le> INT_MAX"
    and c: "0 \<le> col" "col < W" and n: "1 \<le> n" "n \<le> H"
    and s: "state_is img out (\<lambda>chan. during_phase2 (mem chan) img chan col 1) s"
    and ov: "\<And>chan row. 0 \<le> chan \<Longrightarrow> chan < 3 \<Longrightarrow> 0 < row \<Longrightarrow> row < n \<Longrightarrow>
               INT_MIN \<le> rect_sums (mem chan) img chan row col
               \<and> rect_sums (mem chan) img chan row col \<le> INT_MAX"
  shows "\<exists>s'. for_loop 1 n (phase2_body W col) s = Inr s'
           \<and> state_is img out (\<lambda>chan. during_phase2 (mem chan) img chan col n) s'"
proof (rule for_loop_inv
    [where I = "\<lambda>i. state_is img out (\<lambda>chan. during_phase2 (mem chan) img chan col i)"])
  show "state_is img out (\<lambda>chan. during_phase2 (mem chan) img chan col 1) s" by (rule s)
  show "1 \<le> n" by (rule n)
next
  fix i t
  assume i: "1 \<le> i" "i < n"
    and t: "state_is img out (\<lambda>chan. during_phase2 (mem chan) img chan col i) t"
  show "\<exists>t'. phase2_body W col i t = Inr t'
          \<and> state_is img out (\<lambda>chan. during_phase2 (mem chan) img chan col (i + 1)) t'"
  proof (rule phase2_body_step [OF img _ _ c t])
    show "0 < i" "i < H" using i n by simp_all
    show "INT_MIN \<le> rect_sums (mem chan) img chan i col \<and> rect_sums (mem chan) img chan i col \<le> INT_MAX"
      if "0 \<le> chan" "chan < 3" for chan
      using ov [of chan i] that i by simp
  qed
qed

lemma during_phase2_start:
  "0 \<le> r \<Longrightarrow> during_phase2 mem img chan j 1 r c = during_phase2 mem img chan j 0 r c"
  by (cases "r = 0") (auto simp: during_phase2_def rect_sums_0)

lemma phase2_cols:
  assumes img: "valid_image img" "W = width img" "H = height img" "W * H \<le> INT_MAX"
    and s: "state_is img out (\<lambda>chan. row_sums (mem chan) img chan) s"
    and ov: "\<And>chan row col. 0 \<le> chan \<Longrightarrow> chan < 3 \<Longrightarrow> 0 < row \<Longrightarrow> row < H \<Longrightarrow> 0 \<le> col \<Longrightarrow> col < W \<Longrightarrow>
               INT_MIN \<le> rect_sums (mem chan) img chan row col
               \<and> rect_sums (mem chan) img chan row col \<le> INT_MAX"
  shows "\<exists>s'. phase2 W H s = Inr s'
           \<and> state_is img out (\<lambda>chan. rect_sums (mem chan) img chan) s'"
proof -
  have W: "0 < W" and H: "0 < H" using img(1-3) by (simp_all add: valid_image_def)
  have "\<exists>s'. for_loop 0 W (\<lambda>col. for_loop 1 H (phase2_body W col)) s = Inr s'
          \<and> state_is img out (\<lambda>chan. during_phase2 (mem chan) img chan W 0) s'"
  proof (rule for_loop_inv
      [where I = "\<lambda>j. state_is img out (\<lambda>chan. during_phase2 (mem chan) img chan j 0)"])
    show "state_is img out (\<lambda>chan. during_phase2 (mem chan) img chan 0 0) s"
      using s by (rule state_is_cong) (simp add: during_phase2_def)
    show "0 \<le> W" using W by simp
  next
    fix j t
    assume j: "0 \<le> j" "j < W"
      and t: "state_is img out (\<lambda>chan. during_phase2 (mem chan) img chan j 0) t"
    have t1: "state_is img out (\<lambda>chan. during_phase2 (mem chan) img chan j 1) t"
      using t by (rule state_is_cong) (simp add: during_phase2_start)
    obtain t' where t': "for_loop 1 H (phase2_body W j) t = Inr t'"
        "state_is img out (\<lambda>chan. during_phase2 (mem chan) img chan j H) t'"
      using phase2_col [OF img j _ _ t1, of H] H ov j by auto
    have "state_is img out (\<lambda>chan. during_phase2 (mem chan) img chan (j + 1) 0) t'"
      using t'(2) by (rule state_is_cong) (auto simp: during_phase2_def img(3))
    with t'(1) show "\<exists>t'. for_loop 1 H (phase2_body W j) t = Inr t'
        \<and> state_is img out (\<lambda>chan. during_phase2 (mem chan) img chan (j + 1) 0) t'"
      by simp
  qed
  then obtain s' where s': "for_loop 0 W (\<lambda>col. for_loop 1 H (phase2_body W col)) s = Inr s'"
      "state_is img out (\<lambda>chan. during_phase2 (mem chan) img chan W 0) s'"
    by blast
  have "state_is img out (\<lambda>chan. rect_sums (mem chan) img chan) s'"
    using s'(2) by (rule state_is_cong) (simp add: during_phase2_def img(2))
  with s'(1) show ?thesis by (simp add: phase2_def)
qed

subsection \<open>Both passes\<close>

lemma pixel_range: "0 \<le> pixel img chan r c" "pixel img chan r c \<le> 255"
proof -
  show "0 \<le> pixel img chan r c" by (simp add: pixel_def)
  have "uint (data img ! nat (pixel_offset img c r chan)) < 2 ^ LENGTH(8)"
    by (rule uint_lt2p)
  then show "pixel img chan r c \<le> 255" by (simp add: pixel_def)
qed

lemma mem_of_simps [simp]:
  "mem_of mem_r mem_g mem_b 0 = mem_r"
  "mem_of mem_r mem_g mem_b 1 = mem_g"
  "mem_of mem_r mem_g mem_b 2 = mem_b"
  by (simp_all add: mem_of_def)

lemma build_tables_rect_sums:
  assumes img: "valid_image img" "W = width img" "H = height img" "W * H \<le> INT_MAX"
    and len: "length mem_r = nat (W * H)" "length mem_g = nat (W * H)" "length mem_b = nat (W * H)"
    and ov1: "\<And>chan row col. 0 \<le> chan \<Longrightarrow> chan < 3 \<Longrightarrow> 0 \<le> row \<Longrightarrow> row < H \<Longrightarrow> 0 < col \<Longrightarrow> col < W \<Longrightarrow>
               INT_MIN \<le> row_sums (mem_of mem_r mem_g mem_b chan) img chan row col
               \<and> row_sums (mem_of mem_r mem_g mem_b chan) img chan row col \<le> INT_MAX"
    and ov2: "\<And>chan row col. 0 \<le> chan \<Longrightarrow> chan < 3 \<Longrightarrow> 0 < row \<Longrightarrow> row < H \<Longrightarrow> 0 \<le> col \<Longrightarrow> col < W \<Longrightarrow>
               INT_MIN \<le> rect_sums (mem_of mem_r mem_g mem_b chan) img chan row col
               \<and> rect_sums (mem_of mem_r mem_g mem_b chan) img chan row col \<le> INT_MAX"
  shows "\<exists>s'. build_tables (start img mem_r mem_g mem_b) = Inr s'
           \<and> state_is img (ImageCreate W H)
               (\<lambda>chan. rect_sums (mem_of mem_r mem_g mem_b chan) img chan) s'"
proof -
  let ?mem = "mem_of mem_r mem_g mem_b"
  let ?s = "start img mem_r mem_g mem_b"
  have s: "state_is img (ImageCreate W H) (\<lambda>chan. cell (?mem chan) W) ?s"
    using len by (simp add: state_is_def start_def img(2,3) table_is_self)
  obtain s1 where s1: "phase1 W H ?s = Inr s1"
      "state_is img (ImageCreate W H) (\<lambda>chan. row_sums (?mem chan) img chan) s1"
    using phase1_rows [OF img s ov1] by blast
  obtain s2 where s2: "phase2 W H s1 = Inr s2"
      "state_is img (ImageCreate W H) (\<lambda>chan. rect_sums (?mem chan) img chan) s2"
    using phase2_cols [OF img s1(2) ov2] by blast
  have "build_tables ?s = Inr s2"
    using s1(1) s2(1) by (simp add: build_tables_def Let_def start_def img(2,3))
  with s2(2) show ?thesis by simp
qed

lemma row_sums_bounds:
  assumes "0 \<le> cell mem (width img) r 0" "cell mem (width img) r 0 \<le> 255" "0 \<le> c"
  shows "0 \<le> row_sums mem img chan r c" "row_sums mem img chan r c \<le> 255 * (c + 1)"
proof -
  have e: "0 \<le> effective_pixel mem img chan r c'" "effective_pixel mem img chan r c' \<le> 255" for c'
    using assms(1,2) pixel_range [of img chan r c'] by (simp_all add: effective_pixel_def)
  show "0 \<le> row_sums mem img chan r c"
    unfolding row_sums_def by (intro sum_nonneg e)
  have "row_sums mem img chan r c \<le> of_nat (card {0..c}) * 255"
    unfolding row_sums_def by (intro sum_bounded_above e)
  then show "row_sums mem img chan r c \<le> 255 * (c + 1)"
    using assms(3) by simp
qed

lemma rect_sums_bounds:
  assumes "\<And>r'. 0 \<le> r' \<Longrightarrow> r' \<le> r \<Longrightarrow>
             0 \<le> cell mem (width img) r' 0 \<and> cell mem (width img) r' 0 \<le> 255"
    and "0 \<le> r" "0 \<le> c"
  shows "0 \<le> rect_sums mem img chan r c" "rect_sums mem img chan r c \<le> 255 * ((r + 1) * (c + 1))"
proof -
  have e: "0 \<le> row_sums mem img chan r' c" "row_sums mem img chan r' c \<le> 255 * (c + 1)"
    if "r' \<in> {0..r}" for r'
    using row_sums_bounds [of mem img r' c chan] assms(1) [of r'] assms(3) that by simp_all
  show "0 \<le> rect_sums mem img chan r c"
    unfolding rect_sums_def by (intro sum_nonneg e)
  have "rect_sums mem img chan r c \<le> of_nat (card {0..r}) * (255 * (c + 1))"
    unfolding rect_sums_def by (intro sum_bounded_above e)
  then show "rect_sums mem img chan r c \<le> 255 * ((r + 1) * (c + 1))"
    using assms(2) by (simp add: algebra_simps)
qed

lemma area_le:
  fixes W H :: int
  assumes "0 \<le> r" "r < H" "0 \<le> c" "c < W"
  shows "(r + 1) * (c + 1) \<le> W * H"
proof -
  have "(r + 1) * (c + 1) \<le> H * W"
    using assms by (intro mult_mono) simp_all
  then show ?thesis by (simp add: mult.commute)
qed

lemma for_loop_split:
  assumes "i \<le> k" "k \<le> n"
  shows "for_loop i n body s = bnd (for_loop i k body s) (for_loop k n body)"
  using assms
proof (induction "nat (k - i)" arbitrary: i s)
  case 0
  then have "i = k" by simp
  then show ?case by simp
next
  case (Suc m)
  then have lt: "i < k" "i < n" by linarith+
  show ?case
  proof (cases "body i s")
    case (Inl e)
    then show ?thesis by (simp add: for_loop_step lt)
  next
    case (Inr t)
    have "for_loop (i + 1) n body t = bnd (for_loop (i + 1) k body t) (for_loop k n body)"
      using Suc.hyps(2) lt Suc.prems(2) by (intro Suc.hyps(1)) linarith+
    then show ?thesis by (simp add: for_loop_step lt Inr)
  qed
qed

lemma build_tables_small:
  assumes "valid_image img"
    and "255 * (width img * height img) \<le> INT_MAX"
    and "length mem_r = nat (width img * height img)"
    and "length mem_g = nat (width img * height img)"
    and "length mem_b = nat (width img * height img)"
    and "\<forall>r. 0 \<le> r \<and> r < height img \<longrightarrow>
           0 \<le> cell mem_r (width img) r 0 \<and> cell mem_r (width img) r 0 \<le> 255
           \<and> 0 \<le> cell mem_g (width img) r 0 \<and> cell mem_g (width img) r 0 \<le> 255
           \<and> 0 \<le> cell mem_b (width img) r 0 \<and> cell mem_b (width img) r 0 \<le> 255"
  shows "\<exists>s'. build_tables (start img mem_r mem_g mem_b) = Inr s'
           \<and> state_is img (ImageCreate (width img) (height img))
               (\<lambda>chan. rect_sums (mem_of mem_r mem_g mem_b chan) img chan) s'"
proof -
  let ?W = "width img" and ?H = "height img"
  let ?mem = "mem_of mem_r mem_g mem_b"
  have WH: "0 < ?W" "0 < ?H" using assms(1) by (simp_all add: valid_image_def)
  then have "0 \<le> ?W * ?H" by simp
  with assms(2) have small: "?W * ?H \<le> INT_MAX" by linarith
  have col0: "0 \<le> cell (?mem chan) ?W r 0 \<and> cell (?mem chan) ?W r 0 \<le> 255"
    if "0 \<le> chan" "chan < 3" "0 \<le> r" "r < ?H" for chan r
    using assms(6) that by (auto simp: mem_of_def)
  have top: "255 * ((r + 1) * (c + 1)) \<le> INT_MAX" if "0 \<le> r" "r < ?H" "0 \<le> c" "c < ?W" for r c
    using area_le [OF that] assms(2) by linarith
  show ?thesis
  proof (rule build_tables_rect_sums [OF assms(1) refl refl small assms(3-5)])
    fix chan row col :: int
    assume a: "0 \<le> chan" "chan < 3" "0 \<le> row" "row < ?H" "0 < col" "col < ?W"
    have c: "0 \<le> col" using a(5) by simp
    note b = row_sums_bounds [of "?mem chan" img row col chan]
    have "1 * (col + 1) \<le> (row + 1) * (col + 1)"
      using a(3) c by (intro mult_right_mono) simp_all
    then have "255 * (col + 1) \<le> 255 * ((row + 1) * (col + 1))"
      by simp
    with b col0 [OF a(1-4)] c top [OF a(3,4) c a(6)]
    show "INT_MIN \<le> row_sums (?mem chan) img chan row col
          \<and> row_sums (?mem chan) img chan row col \<le> INT_MAX"
      by (simp add: INT_MIN_def)
  next
    fix chan row col :: int
    assume a: "0 \<le> chan" "chan < 3" "0 < row" "row < ?H" "0 \<le> col" "col < ?W"
    have r: "0 \<le> row" using a(3) by simp
    have "0 \<le> rect_sums (?mem chan) img chan row col
          \<and> rect_sums (?mem chan) img chan row col \<le> 255 * ((row + 1) * (col + 1))"
      using rect_sums_bounds [of row "?mem chan" img col chan] col0 [OF a(1,2)] a(4) r a(5)
      by simp
    with top [OF r a(4) a(5,6)]
    show "INT_MIN \<le> rect_sums (?mem chan) img chan row col
          \<and> rect_sums (?mem chan) img chan row col \<le> INT_MAX"
      by (simp add: INT_MIN_def)
  qed
qed

section \<open>Overflow of the table cells (C8)\<close>

text \<open>
  C8, as stated, for every valid image: the tables are arrays of \<open>int\<close>, and \<open>int\<close> holds
  \<open>255 * W * H\<close> only up to \<open>W * H = 8421504\<close>. On one row of 8421506 white pixels, with the
  blocks zeroed, the first pass reaches \<open>255 + 255 * 8421504 = 2147483775\<close> at column 8421505.
\<close>

lemma white_row_dims: "width white_row = 8421506" "height white_row = 1"
  "length (data white_row) = 25264518"
  by (simp_all add: white_row_def)

lemma white_row_valid: "valid_image white_row"
  by (simp add: valid_image_def white_row_dims)

lemma white_row_pixel:
  assumes "0 \<le> c" "c < 8421506" "0 \<le> chan" "chan < 3"
  shows "pixel white_row chan 0 c = 255"
proof -
  have "nat (pixel_offset white_row c 0 chan) < 25264518"
    using assms by (simp add: pixel_offset_def white_row_dims)
  then have "data white_row ! nat (pixel_offset white_row c 0 chan) = 255"
    by (simp add: white_row_def)
  then show ?thesis by (simp add: pixel_def)
qed

lemma white_row_sums:
  assumes "0 \<le> c" "c < 8421506" "0 \<le> chan" "chan < 3"
  shows "row_sums zero_row white_row chan 0 c = 255 * c"
  using assms(1,2)
proof (induction c rule: int_ge_induct)
  case base
  show ?case by (simp add: row_sums_0 cell_def zero_row_def)
next
  case (step c)
  then have "row_sums zero_row white_row chan 0 (c + 1)
               = pixel white_row chan 0 (c + 1) + row_sums zero_row white_row chan 0 c"
    by (simp add: row_sums_step)
  also have "\<dots> = 255 + 255 * c"
    using step assms(3,4) by (simp add: white_row_pixel)
  finally show ?case by simp
qed

theorem white_row_overflows:
  "build_tables (start white_row zero_row zero_row zero_row) = Inl SignedOverflow"
proof -
  let ?W = "8421506 :: int" and ?k = "8421505 :: int"
  let ?mem = "mem_of zero_row zero_row zero_row"
  let ?s = "start white_row zero_row zero_row zero_row"
  let ?out = "ImageCreate ?W 1"
  note img = white_row_valid white_row_dims(1) [symmetric] white_row_dims(2) [symmetric]
  have small: "?W * 1 \<le> INT_MAX" by (simp add: INT_MAX_def)
  have mem: "?mem chan = zero_row" for chan by (simp add: mem_of_def)
  have "state_is white_row ?out (\<lambda>chan. cell (?mem chan) ?W) ?s"
    by (simp add: state_is_def start_def white_row_dims table_is_self zero_row_def)
  then have "state_is white_row ?out (\<lambda>chan. during_phase1 (?mem chan) white_row chan 0 0) ?s"
    by (rule state_is_cong) (simp add: during_phase1_def white_row_dims)
  then have s1: "state_is white_row ?out (\<lambda>chan. during_phase1 (?mem chan) white_row chan 0 1) ?s"
    by (rule state_is_cong) (simp add: during_phase1_start)
  have "\<exists>s'. for_loop 1 ?k (phase1_body ?W 0) ?s = Inr s'
          \<and> state_is white_row ?out (\<lambda>chan. during_phase1 (?mem chan) white_row chan 0 ?k) s'"
  proof (rule phase1_row [OF img small _ _ _ _ s1])
    show "(0 :: int) \<le> 0" "(0 :: int) < 1" "(1 :: int) \<le> ?k" "?k \<le> ?W" by simp_all
    show "INT_MIN \<le> row_sums (?mem chan) white_row chan 0 col
          \<and> row_sums (?mem chan) white_row chan 0 col \<le> INT_MAX"
      if "0 \<le> chan" "chan < 3" "0 < col" "col < ?k" for chan col
      using that white_row_sums [of col chan] by (simp add: mem INT_MIN_def INT_MAX_def)
  qed
  then obtain sk where sk: "for_loop 1 ?k (phase1_body ?W 0) ?s = Inr sk"
      "state_is white_row ?out (\<lambda>chan. during_phase1 (?mem chan) white_row chan 0 ?k) sk"
    by blast
  from sk(2) have in_sk: "img_in sk = white_row"
    and tr: "table_is ?W 1 (sums_r sk) (during_phase1 zero_row white_row 0 0 ?k)"
    by (simp_all add: state_is_def white_row_dims)
  have left: "cell (sums_r sk) ?W 0 8421504 = 2147483520"
    using table_is_cell [OF tr, of 0 8421504] white_row_sums [of 8421504 0]
    by (simp add: during_phase1_def)
  have p: "ImageGetPixel white_row ?k 0 0 = Inr (word_of_int (pixel white_row 0 0 ?k))"
    by (rule pixel_read(1) [OF img]) simp_all
  have pv: "pixel white_row 0 0 ?k = 255" by (rule white_row_pixel) simp_all
  have i: "idx 0 (?k - 1) ?W 1 = Inr (0 * ?W + (?k - 1))"
    by (rule idx_ok(1) [where H = 1]) (simp_all add: INT_MAX_def)
  have r: "rd (sums_r sk) (?k - 1) = Inr (cell (sums_r sk) ?W 0 (?k - 1))"
    using table_is_length [OF tr] by (simp add: rd_def cell_def)
  have "phase1_cell white_row ?W 0 ?k 0 (sums_r sk) = Inl SignedOverflow"
    using i r by (simp add: phase1_cell_def p pv c_sub_def c_add_def c_int_def
        INT_MIN_def INT_MAX_def left)
  then have "phase1_body ?W 0 ?k sk = Inl SignedOverflow"
    by (simp add: phase1_body_def in_sk)
  then have "for_loop ?k ?W (phase1_body ?W 0) sk = Inl SignedOverflow"
    by (simp add: for_loop_step)
  then have "for_loop 1 ?W (phase1_body ?W 0) ?s = Inl SignedOverflow"
    using for_loop_split [of 1 ?k ?W "phase1_body ?W 0" ?s] by (simp add: sk(1))
  then have "phase1 ?W 1 ?s = Inl SignedOverflow"
    by (simp add: phase1_def for_loop_step)
  then show ?thesis
    by (simp add: build_tables_def start_def white_row_dims)
qed

text \<open>
  C8, amended: the tables are arrays of 32-bit \<open>int\<close>. For every valid image with
  \<open>255 * W * H \<le> 2^31 - 1\<close>, when the three blocks have \<open>W * H\<close> cells and the cell of column 0
  of every row holds a value in \<open>0..255\<close> as the first pass starts, neither pass overflows
  (nor faults otherwise), and the tables end up holding the rectangle sums of the effective
  pixels.
\<close>

theorem tables_do_not_overflow:
  assumes "valid_image img"
    and "255 * (width img * height img) \<le> INT_MAX"
    and "length mem_r = nat (width img * height img)"
    and "length mem_g = nat (width img * height img)"
    and "length mem_b = nat (width img * height img)"
    and "\<forall>r. 0 \<le> r \<and> r < height img \<longrightarrow>
           0 \<le> cell mem_r (width img) r 0 \<and> cell mem_r (width img) r 0 \<le> 255
           \<and> 0 \<le> cell mem_g (width img) r 0 \<and> cell mem_g (width img) r 0 \<le> 255
           \<and> 0 \<le> cell mem_b (width img) r 0 \<and> cell mem_b (width img) r 0 \<le> 255"
  shows "\<exists>s'. build_tables (start img mem_r mem_g mem_b) = Inr s'
           \<and> state_is img (ImageCreate (width img) (height img))
               (\<lambda>chan. rect_sums (mem_of mem_r mem_g mem_b chan) img chan) s'"
  using build_tables_small [OF assms] .

text \<open>The 2 by 2 image with zeroed blocks.\<close>

theorem tables_do_not_overflow_witness:
  "\<exists>s'. build_tables (start image_2x2 zeros4 zeros4 zeros4) = Inr s'
      \<and> state_is image_2x2 (ImageCreate 2 2)
          (\<lambda>chan. rect_sums (mem_of zeros4 zeros4 zeros4 chan) image_2x2 chan) s'"
proof -
  have v: "valid_image image_2x2" by (simp add: valid_image_def image_2x2_def)
  have c: "cell zeros4 2 r 0 = 0" if "0 \<le> r" "r < 2" for r
  proof -
    from that have "r = 0 \<or> r = 1" by linarith
    then show ?thesis by (auto simp: cell_def zeros4_def)
  qed
  show ?thesis
    using tables_do_not_overflow [OF v, of zeros4 zeros4 zeros4] c
    by (simp add: image_2x2_def zeros4_def INT_MAX_def)
qed

section \<open>The input image is only read (C10)\<close>

lemma ImageSetPixel_dims:
  "ImageSetPixel img x y chan v = Inr out \<Longrightarrow>
     width out = width img \<and> height out = height img \<and> length (data out) = length (data img)"
  by (auto simp: ImageSetPixel_def Let_def split: if_splits)

lemma phase1_body_frame: "phase1_body W row col t = Inr t' \<Longrightarrow> frame img t \<Longrightarrow> frame img t'"
  by (auto simp: phase1_body_def bnd_eq_Inr frame_def)

lemma phase2_body_frame: "phase2_body W col row t = Inr t' \<Longrightarrow> frame img t \<Longrightarrow> frame img t'"
  by (auto simp: phase2_body_def bnd_eq_Inr frame_def)

lemma blur_color_frame:
  "blur_color W row col bx pixels color t = Inr t' \<Longrightarrow> frame img t \<Longrightarrow> frame img t'"
  by (auto simp: blur_color_def bnd_eq_Inr frame_def dest: ImageSetPixel_dims)

lemma blur_pixel_frame:
  assumes "blur_pixel W H R row col t = Inr t'" and "frame img t"
  shows "frame img t'"
proof -
  from assms(1) obtain bx pixels where "for_loop 0 3 (blur_color W row col bx pixels) t = Inr t'"
    by (auto simp: blur_pixel_def bnd_eq_Inr)
  then show ?thesis
    using assms(2) by (rule for_loop_pres) (rule blur_color_frame)
qed

lemma phase1_frame:
  assumes "phase1 W H s = Inr s'" and "frame img s"
  shows "frame img s'"
  using assms unfolding phase1_def
  by (rule for_loop_pres) (erule for_loop_pres, assumption, rule phase1_body_frame)

lemma phase2_frame:
  assumes "phase2 W H s = Inr s'" and "frame img s"
  shows "frame img s'"
  using assms unfolding phase2_def
  by (rule for_loop_pres) (erule for_loop_pres, assumption, rule phase2_body_frame)

lemma blur_frame:
  assumes "blur W H R s = Inr s'" and "frame img s"
  shows "frame img s'"
  using assms unfolding blur_def
  by (rule for_loop_pres) (erule for_loop_pres, assumption, rule blur_pixel_frame)

text \<open>
  C10: whenever \<open>main\<close> reaches \<^verbatim>\<open>ImageWrite\<close>, the input image is the one that was read,
  and the output image has the input's width and height and the samples of the image that
  \<^verbatim>\<open>ImageCreate(W, H)\<close> made, some of them overwritten. The three passes only call
  \<^verbatim>\<open>ImageGetPixel\<close> on \<open>img_in\<close> and \<^verbatim>\<open>ImageSetPixel\<close> on \<open>img_out\<close>.
\<close>

theorem input_image_unchanged:
  assumes "main R img mem_r mem_g mem_b = Inr s"
  shows "img_in s = img \<and> width (img_out s) = width img \<and> height (img_out s) = height img
         \<and> length (data (img_out s)) = length (data (ImageCreate (width img) (height img)))"
proof -
  let ?s0 = "start img mem_r mem_g mem_b"
  have f0: "frame img ?s0" by (simp add: frame_def start_def ImageCreate_def)
  from assms obtain s1 s2 where
    p1: "phase1 (width img) (height img) ?s0 = Inr s1" and
    p2: "phase2 (width img) (height img) s1 = Inr s2" and
    p3: "blur (width img) (height img) R s2 = Inr s"
    by (auto simp: main_def build_tables_def Let_def bnd_eq_Inr start_def)
  from p1 f0 have "frame img s1" by (rule phase1_frame)
  with p2 have "frame img s2" by (rule phase2_frame)
  with p3 have "frame img s" by (rule blur_frame)
  then show ?thesis by (simp add: frame_def)
qed

text \<open>The run on the 2 by 2 image at radius 1.\<close>

theorem input_image_unchanged_witness:
  "main 1 image_2x2 zeros4 zeros4 zeros4
     = Inr \<lparr>img_in = image_2x2,
            img_out = \<lparr>width = 2, height = 2,
                       data = [35, 40, 45, 35, 40, 45, 35, 40, 45, 35, 40, 45]\<rparr>,
            sums_r = [0, 40, 0, 140], sums_g = [0, 50, 0, 160], sums_b = [0, 60, 0, 180]\<rparr>
   \<and> width image_2x2 = 2 \<and> height image_2x2 = 2
   \<and> length (data (ImageCreate (width image_2x2) (height image_2x2))) = 12"
proof -
  let ?s = "\<lparr>img_in = image_2x2,
            img_out = \<lparr>width = 2, height = 2,
                       data = [35, 40, 45, 35, 40, 45, 35, 40, 45, 35, 40, 45]\<rparr>,
            sums_r = [0, 40, 0, 140], sums_g = [0, 50, 0, 160], sums_b = [0, 60, 0, 180]\<rparr>"
  have run: "main 1 image_2x2 zeros4 zeros4 zeros4 = Inr ?s"
    by code_simp
  have dims: "width image_2x2 = 2" "height image_2x2 = 2"
    by (simp_all add: image_2x2_def)
  have len: "length (data (ImageCreate 2 2)) = 12"
    by (simp add: ImageCreate_def)
  from input_image_unchanged [OF run] show ?thesis
    by (simp add: run dims len)
qed

section \<open>The third pass on tables of rectangle sums\<close>

subsection \<open>Inclusion and exclusion\<close>

lemma sum_int_split:
  fixes f :: "int \<Rightarrow> int"
  assumes "0 \<le> a" "a \<le> b + 1"
  shows "(\<Sum>k = 0..b. f k) = (\<Sum>k = 0..a - 1. f k) + (\<Sum>k = a..b. f k)"
proof -
  have "{0..b} = {0..a - 1} \<union> {a..b}" using assms by auto
  moreover have "{0..a - 1} \<inter> {a..b} = {}" by auto
  ultimately show ?thesis by (simp add: sum.union_disjoint)
qed

lemma rect_sums_empty [simp]: "rect_sums mem img chan (- 1) c = 0"
  by (simp add: rect_sums_def)

lemma row_sums_empty [simp]: "row_sums mem img chan r (- 1) = 0"
  by (simp add: row_sums_def)

lemma rect_sums_empty_col [simp]: "rect_sums mem img chan r (- 1) = 0"
  by (simp add: rect_sums_def)

lemma four_corners:
  assumes "0 \<le> x_min bx" "x_min bx \<le> x_max bx" "0 \<le> y_min bx" "y_min bx \<le> y_max bx"
  shows "rect_sums mem img chan (y_max bx) (x_max bx)
         - rect_sums mem img chan (y_min bx - 1) (x_max bx)
         - rect_sums mem img chan (y_max bx) (x_min bx - 1)
         + rect_sums mem img chan (y_min bx - 1) (x_min bx - 1)
         = effective_window_sum mem img chan bx"
proof -
  let ?e = "effective_pixel mem img chan"
  have row: "row_sums mem img chan r (x_max bx) - row_sums mem img chan r (x_min bx - 1)
               = (\<Sum>x = x_min bx..x_max bx. ?e r x)" for r
    unfolding row_sums_def
    using sum_int_split [of "x_min bx" "x_max bx" "?e r"] assms(1,2) by simp
  have diff: "rect_sums mem img chan r (x_max bx) - rect_sums mem img chan r (x_min bx - 1)
               = (\<Sum>y = 0..r. \<Sum>x = x_min bx..x_max bx. ?e y x)" for r
    unfolding rect_sums_def by (simp add: row sum_subtractf [symmetric])
  have "rect_sums mem img chan (y_max bx) (x_max bx)
         - rect_sums mem img chan (y_min bx - 1) (x_max bx)
         - rect_sums mem img chan (y_max bx) (x_min bx - 1)
         + rect_sums mem img chan (y_min bx - 1) (x_min bx - 1)
        = (rect_sums mem img chan (y_max bx) (x_max bx) - rect_sums mem img chan (y_max bx) (x_min bx - 1))
          - (rect_sums mem img chan (y_min bx - 1) (x_max bx) - rect_sums mem img chan (y_min bx - 1) (x_min bx - 1))"
    by simp
  also have "\<dots> = (\<Sum>y = 0..y_max bx. \<Sum>x = x_min bx..x_max bx. ?e y x)
                    - (\<Sum>y = 0..y_min bx - 1. \<Sum>x = x_min bx..x_max bx. ?e y x)"
    by (simp only: diff)
  also have "\<dots> = (\<Sum>y = y_min bx..y_max bx. \<Sum>x = x_min bx..x_max bx. ?e y x)"
    using sum_int_split [of "y_min bx" "y_max bx" "\<lambda>y. \<Sum>x = x_min bx..x_max bx. ?e y x"]
      assms(3,4) by simp
  finally show ?thesis by (simp add: effective_window_sum_def)
qed

lemma spec_window_sum_rect_sums:
  assumes bx: "0 \<le> x_min bx" "x_min bx \<le> x_max bx" "x_max bx < W"
      "0 \<le> y_min bx" "y_min bx \<le> y_max bx" "y_max bx < H"
    and t: "table_is W H t (rect_sums mem img chan)"
  shows "spec_a t W bx = rect_sums mem img chan (y_min bx - 1) (x_min bx - 1)"
    and "spec_b t W bx = rect_sums mem img chan (y_min bx - 1) (x_max bx)"
    and "spec_c t W bx = rect_sums mem img chan (y_max bx) (x_min bx - 1)"
    and "spec_d t W bx = rect_sums mem img chan (y_max bx) (x_max bx)"
    and "spec_window_sum t W bx = effective_window_sum mem img chan bx"
proof -
  show a: "spec_a t W bx = rect_sums mem img chan (y_min bx - 1) (x_min bx - 1)"
    using table_is_cell [OF t, of "y_min bx - 1" "x_min bx - 1"] bx
    by (auto simp: spec_a_def)
  show b: "spec_b t W bx = rect_sums mem img chan (y_min bx - 1) (x_max bx)"
    using table_is_cell [OF t, of "y_min bx - 1" "x_max bx"] bx
    by (auto simp: spec_b_def)
  show c: "spec_c t W bx = rect_sums mem img chan (y_max bx) (x_min bx - 1)"
    using table_is_cell [OF t, of "y_max bx" "x_min bx - 1"] bx
    by (auto simp: spec_c_def)
  show d: "spec_d t W bx = rect_sums mem img chan (y_max bx) (x_max bx)"
    using table_is_cell [OF t, of "y_max bx" "x_max bx"] bx
    by (auto simp: spec_d_def)
  show "spec_window_sum t W bx = effective_window_sum mem img chan bx"
    using four_corners [OF bx(1,2,4,5), of mem img chan]
    by (simp add: spec_window_sum_def a b c d)
qed

subsection \<open>Writing a sample of the output image\<close>

lemma offset_inj:
  fixes W :: int
  assumes "0 \<le> c" "c < W" "0 \<le> c'" "c' < W" "0 \<le> chan" "chan < 3" "0 \<le> chan'" "chan' < 3"
    and "(r * W + c) * 3 + chan = (r' * W + c') * 3 + chan'"
  shows "r = r' \<and> c = c' \<and> chan = chan'"
proof -
  from lin_index_inj [OF assms(5-9)] have "r * W + c = r' * W + c'" "chan = chan'"
    by simp_all
  with lin_index_inj [OF assms(1-4)] show ?thesis by simp
qed

lemma offset_range:
  fixes W :: int
  assumes "0 \<le> r" "r < H" "0 \<le> c" "c < W" "0 \<le> chan" "chan < 3"
  shows "0 \<le> (r * W + c) * 3 + chan" "(r * W + c) * 3 + chan < W * H * 3"
proof -
  have "(r + 1) * W \<le> H * W"
    using assms by (intro mult_right_mono) simp_all
  then have hi: "r * W + c < W * H"
    using assms(4) by (simp add: algebra_simps)
  have "0 \<le> r * W" using assms by simp
  then have lo: "0 \<le> r * W + c" using assms(3) by simp
  show "0 \<le> (r * W + c) * 3 + chan" using lo assms(5) by simp
  show "(r * W + c) * 3 + chan < W * H * 3" using hi assms(6) by simp
qed

lemma image_is_mono:
  assumes "image_is W H out P f"
    and "\<And>chan r c. 0 \<le> chan \<Longrightarrow> chan < 3 \<Longrightarrow> 0 \<le> r \<Longrightarrow> r < H \<Longrightarrow> 0 \<le> c \<Longrightarrow> c < W
            \<Longrightarrow> Q r c chan \<Longrightarrow> P r c chan"
  shows "image_is W H out Q f"
  using assms unfolding image_is_def by blast

lemma image_is_update:
  assumes out: "image_is W H out P f"
    and rc: "0 \<le> r" "r < H" "0 \<le> c" "c < W" "0 \<le> chan" "chan < 3"
    and v: "uint v = f chan r c"
  shows "\<exists>out'. ImageSetPixel out c r chan v = Inr out'
           \<and> image_is W H out' (\<lambda>r' c' chan'. P r' c' chan' \<or> (r' = r \<and> c' = c \<and> chan' = chan)) f"
proof -
  from out have W: "width out = W" and H: "height out = H"
    and len: "length (data out) = nat (W * H * 3)"
    and old: "\<And>chan r c. 0 \<le> chan \<Longrightarrow> chan < 3 \<Longrightarrow> 0 \<le> r \<Longrightarrow> r < H \<Longrightarrow> 0 \<le> c \<Longrightarrow> c < W
                \<Longrightarrow> P r c chan \<Longrightarrow> pixel out chan r c = f chan r c"
    by (simp_all add: image_is_def)
  define off where "off = (r * W + c) * 3 + chan"
  let ?out' = "out\<lparr>data := (data out)[nat off := v]\<rparr>"
  have o: "0 \<le> off" "off < W * H * 3"
    using offset_range [OF rc] by (simp_all add: off_def)
  have n: "nat off < length (data out)" using o len by simp
  have "pixel_offset out c r chan = off"
    by (simp add: pixel_offset_def W off_def)
  then have set: "ImageSetPixel out c r chan v = Inr ?out'"
    using o len by (simp add: ImageSetPixel_def)
  have "image_is W H ?out' (\<lambda>r' c' chan'. P r' c' chan' \<or> (r' = r \<and> c' = c \<and> chan' = chan)) f"
    unfolding image_is_def
  proof (intro conjI allI impI)
    show "width ?out' = W" "height ?out' = H" "length (data ?out') = nat (W * H * 3)"
      using W H len by simp_all
  next
    fix chan' r' c'
    assume a: "0 \<le> chan' \<and> chan' < 3 \<and> 0 \<le> r' \<and> r' < H \<and> 0 \<le> c' \<and> c' < W
               \<and> (P r' c' chan' \<or> (r' = r \<and> c' = c \<and> chan' = chan))"
    define off' where "off' = (r' * W + c') * 3 + chan'"
    have o': "0 \<le> off'" "off' < W * H * 3"
      using offset_range [of r' H c' W chan'] a by (simp_all add: off'_def)
    have po: "pixel_offset ?out' c' r' chan' = off'" "pixel_offset out c' r' chan' = off'"
      by (simp_all add: pixel_offset_def W off'_def)
    have px: "pixel ?out' chan' r' c' = uint ((data out)[nat off := v] ! nat off')"
      by (simp add: pixel_def po)
    show "pixel ?out' chan' r' c' = f chan' r' c'"
    proof (cases "r' = r \<and> c' = c \<and> chan' = chan")
      case True
      then have "off' = off" by (simp add: off_def off'_def)
      then have "pixel ?out' chan' r' c' = uint v" using n by (simp add: px)
      with v True show ?thesis by simp
    next
      case False
      then have "off \<noteq> off'"
        using offset_inj [of c W c' chan chan' r r'] rc a unfolding off_def off'_def by blast
      then have "nat off \<noteq> nat off'" using o o' by simp
      then have "pixel ?out' chan' r' c' = pixel out chan' r' c'"
        by (simp add: px pixel_def po)
      with old [of chan' r' c'] a False show ?thesis by auto
    qed
  qed
  with set show ?thesis by blast
qed

lemma effective_pixel_range:
  assumes "0 \<le> cell mem (width img) r 0" "cell mem (width img) r 0 \<le> 255"
  shows "0 \<le> effective_pixel mem img chan r c" "effective_pixel mem img chan r c \<le> 255"
  using assms pixel_range [of img chan r c] by (simp_all add: effective_pixel_def)

lemma effective_window_sum_bounds:
  assumes col0: "\<And>r. y_min bx \<le> r \<Longrightarrow> r \<le> y_max bx \<Longrightarrow>
             0 \<le> cell mem (width img) r 0 \<and> cell mem (width img) r 0 \<le> 255"
    and bx: "x_min bx \<le> x_max bx" "y_min bx \<le> y_max bx"
  shows "0 \<le> effective_window_sum mem img chan bx"
    and "effective_window_sum mem img chan bx \<le> 255 * spec_count bx"
proof -
  let ?e = "effective_pixel mem img chan"
  have e: "0 \<le> ?e y x" "?e y x \<le> 255" if "y \<in> {y_min bx..y_max bx}" for y x
    using effective_pixel_range [of mem img y chan x] col0 [of y] that by simp_all
  have inner: "0 \<le> (\<Sum>x = x_min bx..x_max bx. ?e y x)"
      "(\<Sum>x = x_min bx..x_max bx. ?e y x) \<le> 255 * (x_max bx - x_min bx + 1)"
    if y: "y \<in> {y_min bx..y_max bx}" for y
  proof -
    show "0 \<le> (\<Sum>x = x_min bx..x_max bx. ?e y x)"
      by (intro sum_nonneg e(1) y)
    have "(\<Sum>x = x_min bx..x_max bx. ?e y x) \<le> of_nat (card {x_min bx..x_max bx}) * 255"
      by (intro sum_bounded_above e(2) y)
    then show "(\<Sum>x = x_min bx..x_max bx. ?e y x) \<le> 255 * (x_max bx - x_min bx + 1)"
      using bx(1) by simp
  qed
  show "0 \<le> effective_window_sum mem img chan bx"
    unfolding effective_window_sum_def by (intro sum_nonneg inner(1))
  have "effective_window_sum mem img chan bx
          \<le> of_nat (card {y_min bx..y_max bx}) * (255 * (x_max bx - x_min bx + 1))"
    unfolding effective_window_sum_def by (intro sum_bounded_above inner(2))
  then show "effective_window_sum mem img chan bx \<le> 255 * spec_count bx"
    using bx(2) by (simp add: spec_count_def algebra_simps)
qed

lemma rect_sums_range:
  assumes col0: "\<And>r. 0 \<le> r \<Longrightarrow> r < H \<Longrightarrow>
             0 \<le> cell mem (width img) r 0 \<and> cell mem (width img) r 0 \<le> 255"
    and "- 1 \<le> r" "r < H" "- 1 \<le> c" "c < W"
  shows "0 \<le> rect_sums mem img chan r c" "rect_sums mem img chan r c \<le> 255 * (W * H)"
proof -
  have "0 \<le> rect_sums mem img chan r c \<and> rect_sums mem img chan r c \<le> 255 * (W * H)"
  proof (cases "r = - 1 \<or> c = - 1")
    case True
    have "0 \<le> W * H" using assms(2-5) by simp
    with True show ?thesis by auto
  next
    case False
    then have rc: "0 \<le> r" "0 \<le> c" using assms(2,4) by simp_all
    have b: "0 \<le> rect_sums mem img chan r c"
        "rect_sums mem img chan r c \<le> 255 * ((r + 1) * (c + 1))"
      using rect_sums_bounds [of r mem img c chan] col0 assms(3) rc by simp_all
    with area_le [OF rc(1) assms(3) rc(2) assms(5)] show ?thesis by simp
  qed
  then show "0 \<le> rect_sums mem img chan r c" "rect_sums mem img chan r c \<le> 255 * (W * H)"
    by simp_all
qed

subsection \<open>One sample, one pixel, all pixels\<close>

lemma sums_color_table:
  assumes "tables_hold img f s" "0 \<le> color" "color < 3"
  shows "table_is (width img) (height img) (sums_color s color) (f color)"
proof -
  from assms(2,3) consider "color = 0" | "color = 1" | "color = 2" by linarith
  then show ?thesis
    using assms(1) by cases (simp_all add: tables_hold_def sums_color_def)
qed

text \<open>One channel of one pixel, for any tables.\<close>

lemma blur_color_corners:
  assumes bx: "0 \<le> x_min bx" "x_min bx \<le> x_max bx" "x_max bx < W"
      "0 \<le> y_min bx" "y_min bx \<le> y_max bx" "y_max bx < H"
    and fit: "W * H \<le> INT_MAX"
    and rc: "0 \<le> row" "row < H" "0 \<le> col" "col < W" "0 \<le> color" "color < 3"
    and len: "length (sums_color s color) = nat (W * H)"
    and ok: "corners_in_range (sums_color s color) W bx"
      "byte_in_range (spec_window_sum (sums_color s color) W bx) pixels" "pixels \<noteq> 0"
    and out: "image_is W H (img_out s) P f"
    and f: "f color row col = float_average (spec_window_sum (sums_color s color) W bx) pixels"
  shows "\<exists>out'. blur_color W row col bx pixels color s = Inr (s\<lparr>img_out := out'\<rparr>)
           \<and> image_is W H out' (\<lambda>r' c' chan'. P r' c' chan' \<or> (r' = row \<and> c' = col \<and> chan' = color)) f"
proof -
  let ?t = "sums_color s color"
  let ?ws = "spec_window_sum ?t W bx"
  let ?v = "word_of_int (float_average ?ws pixels) :: u8"
  have ws: "window_sum ?t W bx = Inr ?ws"
    using bx fit len ok(1) by (intro window_sum_formula) (simp_all add: corners_in_range_def)
  have av: "average ?ws pixels = Inr ?v"
    using ok(3,2) by (rule average_float_average)
  have uv: "uint ?v = f color row col"
    using ok(2) by (simp add: f byte_in_range_def uint_byte)
  obtain out' where out': "ImageSetPixel (img_out s) col row color ?v = Inr out'"
      "image_is W H out' (\<lambda>r' c' chan'. P r' c' chan' \<or> (r' = row \<and> c' = col \<and> chan' = color)) f"
    using image_is_update [OF out rc uv] by blast
  have "blur_color W row col bx pixels color s = Inr (s\<lparr>img_out := out'\<rparr>)"
    by (simp add: blur_color_def ws av out'(1))
  with out'(2) show ?thesis by blast
qed

lemma sums_color_cong:
  "sums_r t = sums_r s \<Longrightarrow> sums_g t = sums_g s \<Longrightarrow> sums_b t = sums_b s
     \<Longrightarrow> sums_color t chan = sums_color s chan"
  by (simp add: sums_color_def)

lemma sums_color_length:
  assumes "length (sums_r s) = n" "length (sums_g s) = n" "length (sums_b s) = n"
  shows "length (sums_color s chan) = n"
  using assms by (simp add: sums_color_def)

lemma blur_pixel_corners:
  assumes rc: "0 \<le> row" "row < H" "0 \<le> col" "col < W" "0 \<le> R"
    and R: "col + R \<le> INT_MAX" "row + R \<le> INT_MAX" and fit: "W * H \<le> INT_MAX"
    and len: "length (sums_r s) = nat (W * H)" "length (sums_g s) = nat (W * H)"
      "length (sums_b s) = nat (W * H)"
    and out: "width (img_out s) = W" "height (img_out s) = H"
      "length (data (img_out s)) = nat (W * H * 3)"
    and ok: "\<And>chan. 0 \<le> chan \<Longrightarrow> chan < 3 \<Longrightarrow>
               corners_in_range (sums_color s chan) W (spec_box W H R row col)
               \<and> byte_in_range (spec_window_sum (sums_color s chan) W (spec_box W H R row col))
                   (spec_count (spec_box W H R row col))"
  shows "\<exists>s'. blur_pixel W H R row col s = Inr s'
           \<and> img_in s' = img_in s
           \<and> sums_r s' = sums_r s \<and> sums_g s' = sums_g s \<and> sums_b s' = sums_b s
           \<and> (\<forall>chan. 0 \<le> chan \<and> chan < 3 \<longrightarrow>
                 out_pixel s' chan row col
                   = float_average (spec_window_sum (sums_color s chan) W (spec_box W H R row col))
                       (spec_count (spec_box W H R row col)))"
proof -
  let ?bx = "spec_box W H R row col"
  let ?n = "spec_count ?bx"
  let ?f = "\<lambda>chan (r :: int) (c :: int). float_average (spec_window_sum (sums_color s chan) W ?bx) ?n"
  let ?same = "\<lambda>t :: state. img_in t = img_in s \<and> sums_r t = sums_r s \<and> sums_g t = sums_g s
                  \<and> sums_b t = sums_b s"
  let ?I = "\<lambda>k (t :: state). ?same t
              \<and> image_is W H (img_out t) (\<lambda>r c chan. r = row \<and> c = col \<and> chan < k) ?f"
  note bx = spec_box_inside [OF rc]
  have bb: "bounding_box W H R row col = Inr ?bx" "window_pixels ?bx = Inr ?n"
    using bounding_box_spec_box [OF rc R fit] by simp_all
  have "1 \<le> ?n"
    unfolding spec_count_def by (rule window_pixels_ok(2) [OF bx fit])
  then have n: "?n \<noteq> 0" by linarith
  have "\<exists>s'. for_loop 0 3 (blur_color W row col ?bx ?n) s = Inr s' \<and> ?I 3 s'"
  proof (rule for_loop_inv [where I = ?I])
    have "image_is W H (img_out s) (\<lambda>r c chan. r = row \<and> c = col \<and> chan < 0) ?f"
      using out by (auto simp: image_is_def)
    then show "?I 0 s" by simp
    show "(0 :: int) \<le> 3" by simp
  next
    fix k t
    assume k: "0 \<le> k" "k < 3" and t: "?I k t"
    then have same: "?same t"
      and im: "image_is W H (img_out t) (\<lambda>r c chan. r = row \<and> c = col \<and> chan < k) ?f"
      by simp_all
    have sc: "sums_color t k = sums_color s k"
      using same by (intro sums_color_cong) simp_all
    have "\<exists>out'. blur_color W row col ?bx ?n k t = Inr (t\<lparr>img_out := out'\<rparr>)
            \<and> image_is W H out' (\<lambda>r' c' chan'. (r' = row \<and> c' = col \<and> chan' < k)
                                       \<or> (r' = row \<and> c' = col \<and> chan' = k)) ?f"
    proof (rule blur_color_corners [OF bx fit rc(1-4) k _ _ _ n im])
      show "length (sums_color t k) = nat (W * H)"
        unfolding sc using len by (rule sums_color_length)
      show "corners_in_range (sums_color t k) W ?bx"
        "byte_in_range (spec_window_sum (sums_color t k) W ?bx) ?n"
        unfolding sc using ok [OF k] by simp_all
      show "float_average (spec_window_sum (sums_color s k) W ?bx) ?n
              = float_average (spec_window_sum (sums_color t k) W ?bx) ?n"
        by (simp add: sc)
    qed
    then obtain out' where o: "blur_color W row col ?bx ?n k t = Inr (t\<lparr>img_out := out'\<rparr>)"
        "image_is W H out' (\<lambda>r' c' chan'. (r' = row \<and> c' = col \<and> chan' < k)
                                       \<or> (r' = row \<and> c' = col \<and> chan' = k)) ?f"
      by blast
    have "image_is W H out' (\<lambda>r c chan. r = row \<and> c = col \<and> chan < k + 1) ?f"
      using o(2) by (rule image_is_mono) auto
    with o(1) same show "\<exists>t'. blur_color W row col ?bx ?n k t = Inr t' \<and> ?I (k + 1) t'"
      by simp
  qed
  then obtain s' where s': "for_loop 0 3 (blur_color W row col ?bx ?n) s = Inr s'" "?I 3 s'"
    by blast
  have run: "blur_pixel W H R row col s = Inr s'"
    by (simp add: blur_pixel_def bb s'(1))
  have "out_pixel s' chan row col = ?f chan row col" if "0 \<le> chan \<and> chan < 3" for chan
    using s'(2) that rc(1-4) by (simp add: image_is_def out_pixel_def)
  with run s'(2) show ?thesis by simp
qed

text \<open>The same on tables that hold the rectangle sums of the effective pixels.\<close>

lemma window_sum_effective:
  assumes img: "W = width img" "H = height img" "0 < W" "0 < H"
    and fit2: "2 * (255 * (W * H)) \<le> INT_MAX"
    and col0: "\<And>r. 0 \<le> r \<Longrightarrow> r < H \<Longrightarrow>
                 0 \<le> cell mem W r 0 \<and> cell mem W r 0 \<le> 255"
    and bx: "0 \<le> x_min bx" "x_min bx \<le> x_max bx" "x_max bx < W"
      "0 \<le> y_min bx" "y_min bx \<le> y_max bx" "y_max bx < H"
    and t: "table_is W H t (rect_sums mem img chan)"
  shows "spec_window_sum t W bx = effective_window_sum mem img chan bx"
    and "corners_in_range t W bx"
    and "0 \<le> effective_window_sum mem img chan bx"
    and "effective_window_sum mem img chan bx \<le> 255 * spec_count bx"
    and "1 \<le> spec_count bx" and "spec_count bx \<le> W * H"
proof -
  let ?ws = "effective_window_sum mem img chan bx"
  have WH: "0 \<le> W * H" using img(3,4) by simp
  have fit: "W * H \<le> INT_MAX" using fit2 WH by linarith
  note sp = spec_window_sum_rect_sums [OF bx t]
  have col0': "0 \<le> cell mem (width img) r 0 \<and> cell mem (width img) r 0 \<le> 255"
    if "0 \<le> r" "r < H" for r
    using col0 [OF that] by (simp add: img(1))
  have rng: "0 \<le> rect_sums mem img chan r c \<and> rect_sums mem img chan r c \<le> 255 * (W * H)"
    if "- 1 \<le> r" "r < H" "- 1 \<le> c" "c < W" for r c
    using rect_sums_range [of H mem img r c W chan] col0' that by simp
  have a: "0 \<le> spec_a t W bx" "spec_a t W bx \<le> 255 * (W * H)"
    unfolding sp(1) using rng [of "y_min bx - 1" "x_min bx - 1"] bx by simp_all
  have b: "0 \<le> spec_b t W bx" "spec_b t W bx \<le> 255 * (W * H)"
    unfolding sp(2) using rng [of "y_min bx - 1" "x_max bx"] bx by simp_all
  have c: "0 \<le> spec_c t W bx" "spec_c t W bx \<le> 255 * (W * H)"
    unfolding sp(3) using rng [of "y_max bx" "x_min bx - 1"] bx by simp_all
  show ws: "0 \<le> ?ws" "?ws \<le> 255 * spec_count bx"
    using bx by (intro effective_window_sum_bounds col0'; simp)+
  show cnt: "1 \<le> spec_count bx" "spec_count bx \<le> W * H"
    unfolding spec_count_def using window_pixels_ok(2,3) [OF bx fit] by simp_all
  show "spec_window_sum t W bx = ?ws" by (rule sp(5))
  show "corners_in_range t W bx"
    using a b c ws cnt fit2 by (simp add: corners_in_range_def sp(5) INT_MIN_def INT_MAX_def)
qed

lemma blur_color_writes:
  assumes img: "valid_image img" "W = width img" "H = height img"
    and fit2: "2 * (255 * (W * H)) \<le> INT_MAX"
    and col0: "\<And>chan r. 0 \<le> chan \<Longrightarrow> chan < 3 \<Longrightarrow> 0 \<le> r \<Longrightarrow> r < H \<Longrightarrow>
                 0 \<le> cell (mem chan) W r 0 \<and> cell (mem chan) W r 0 \<le> 255"
    and rc: "0 \<le> row" "row < H" "0 \<le> col" "col < W" "0 \<le> R"
    and color: "0 \<le> color" "color < 3"
    and byte: "byte_in_range (effective_window_sum (mem color) img color (spec_box W H R row col))
                 (spec_count (spec_box W H R row col))"
    and tabs: "tables_hold img (\<lambda>chan. rect_sums (mem chan) img chan) s"
    and out: "image_is W H (img_out s) (done_before row col color)
                (\<lambda>chan. effective_byte (mem chan) img R chan)"
  shows "\<exists>s'. blur_color W row col (spec_box W H R row col)
               (spec_count (spec_box W H R row col)) color s = Inr s'
           \<and> tables_hold img (\<lambda>chan. rect_sums (mem chan) img chan) s'
           \<and> image_is W H (img_out s') (done_before row col (color + 1))
               (\<lambda>chan. effective_byte (mem chan) img R chan)"
proof -
  let ?bx = "spec_box W H R row col"
  let ?F = "\<lambda>chan. effective_byte (mem chan) img R chan"
  have WH: "0 < W" "0 < H" using img by (simp_all add: valid_image_def)
  then have "0 \<le> W * H" by simp
  with fit2 have fit: "W * H \<le> INT_MAX" by linarith
  have t: "table_is W H (sums_color s color) (rect_sums (mem color) img color)"
    using sums_color_table [OF tabs color] by (simp add: img(2,3))
  note bx = spec_box_inside [OF rc]
  note w = window_sum_effective [OF img(2,3) WH fit2 col0 [OF color] bx t]
  have n: "spec_count ?bx \<noteq> 0" using w(5) by linarith
  have f: "?F color row col = float_average (spec_window_sum (sums_color s color) W ?bx) (spec_count ?bx)"
    by (simp add: effective_byte_def Let_def w(1) img(2,3) [symmetric])
  obtain out' where o:
      "blur_color W row col ?bx (spec_count ?bx) color s = Inr (s\<lparr>img_out := out'\<rparr>)"
      "image_is W H out' (\<lambda>r' c' chan'. done_before row col color r' c' chan'
                             \<or> (r' = row \<and> c' = col \<and> chan' = color)) ?F"
    using blur_color_corners [OF bx fit rc(1-4) color table_is_length [OF t] w(2) _ n out f]
      byte by (auto simp: w(1))
  have "tables_hold img (\<lambda>chan. rect_sums (mem chan) img chan) (s\<lparr>img_out := out'\<rparr>)"
    using tabs by (simp add: tables_hold_def)
  moreover have "image_is W H (img_out (s\<lparr>img_out := out'\<rparr>)) (done_before row col (color + 1)) ?F"
    using o(2) by (simp, rule image_is_mono) (auto simp: done_before_def)
  ultimately show ?thesis using o(1) by blast
qed

lemma blur_pixel_writes:
  assumes img: "valid_image img" "W = width img" "H = height img"
    and fit2: "2 * (255 * (W * H)) \<le> INT_MAX"
    and col0: "\<And>chan r. 0 \<le> chan \<Longrightarrow> chan < 3 \<Longrightarrow> 0 \<le> r \<Longrightarrow> r < H \<Longrightarrow>
                 0 \<le> cell (mem chan) W r 0 \<and> cell (mem chan) W r 0 \<le> 255"
    and rc: "0 \<le> row" "row < H" "0 \<le> col" "col < W" "0 \<le> R"
    and R: "R + W \<le> INT_MAX" "R + H \<le> INT_MAX"
    and byte: "\<And>chan. 0 \<le> chan \<Longrightarrow> chan < 3 \<Longrightarrow>
                 byte_in_range (effective_window_sum (mem chan) img chan (spec_box W H R row col))
                   (spec_count (spec_box W H R row col))"
    and tabs: "tables_hold img (\<lambda>chan. rect_sums (mem chan) img chan) s"
    and out: "image_is W H (img_out s) (done_before row col 0)
                (\<lambda>chan. effective_byte (mem chan) img R chan)"
  shows "\<exists>s'. blur_pixel W H R row col s = Inr s'
           \<and> tables_hold img (\<lambda>chan. rect_sums (mem chan) img chan) s'
           \<and> image_is W H (img_out s') (done_before row (col + 1) 0)
               (\<lambda>chan. effective_byte (mem chan) img R chan)"
proof -
  let ?bx = "spec_box W H R row col"
  let ?F = "\<lambda>chan. effective_byte (mem chan) img R chan"
  let ?T = "tables_hold img (\<lambda>chan. rect_sums (mem chan) img chan)"
  have WH: "0 < W" "0 < H" using img by (simp_all add: valid_image_def)
  then have "0 \<le> W * H" by simp
  with fit2 have fit: "W * H \<le> INT_MAX" by linarith
  have bb: "bounding_box W H R row col = Inr ?bx" "window_pixels ?bx = Inr (spec_count ?bx)"
    using bounding_box_spec_box [OF rc _ _ fit] rc R by simp_all
  have "\<exists>s'. for_loop 0 3 (blur_color W row col ?bx (spec_count ?bx)) s = Inr s'
          \<and> (?T s' \<and> image_is W H (img_out s') (done_before row col 3) ?F)"
  proof (rule for_loop_inv
      [where I = "\<lambda>color t. ?T t \<and> image_is W H (img_out t) (done_before row col color) ?F"])
    show "?T s \<and> image_is W H (img_out s) (done_before row col 0) ?F"
      using tabs out by simp
    show "(0 :: int) \<le> 3" by simp
  next
    fix color t
    assume c: "0 \<le> color" "color < 3"
      and t: "?T t \<and> image_is W H (img_out t) (done_before row col color) ?F"
    show "\<exists>t'. blur_color W row col ?bx (spec_count ?bx) color t = Inr t'
            \<and> (?T t' \<and> image_is W H (img_out t') (done_before row col (color + 1)) ?F)"
      using blur_color_writes [where mem = mem and s = t, OF img fit2 col0 rc c byte [OF c]] t
      by blast
  qed
  then obtain s' where s': "for_loop 0 3 (blur_color W row col ?bx (spec_count ?bx)) s = Inr s'"
      "?T s'" "image_is W H (img_out s') (done_before row col 3) ?F"
    by blast
  have "image_is W H (img_out s') (done_before row (col + 1) 0) ?F"
    using s'(3) by (rule image_is_mono) (auto simp: done_before_def)
  moreover have "blur_pixel W H R row col s = Inr s'"
    by (simp add: blur_pixel_def bb s'(1))
  ultimately show ?thesis using s'(2) by blast
qed

lemma blur_writes:
  assumes img: "valid_image img" "W = width img" "H = height img"
    and fit2: "2 * (255 * (W * H)) \<le> INT_MAX"
    and col0: "\<And>chan r. 0 \<le> chan \<Longrightarrow> chan < 3 \<Longrightarrow> 0 \<le> r \<Longrightarrow> r < H \<Longrightarrow>
                 0 \<le> cell (mem chan) W r 0 \<and> cell (mem chan) W r 0 \<le> 255"
    and R: "0 \<le> R" "R + W \<le> INT_MAX" "R + H \<le> INT_MAX"
    and byte: "\<And>chan r c. 0 \<le> chan \<Longrightarrow> chan < 3 \<Longrightarrow> 0 \<le> r \<Longrightarrow> r < H \<Longrightarrow> 0 \<le> c \<Longrightarrow> c < W \<Longrightarrow>
                 byte_in_range (effective_window_sum (mem chan) img chan (spec_box W H R r c))
                   (spec_count (spec_box W H R r c))"
    and tabs: "tables_hold img (\<lambda>chan. rect_sums (mem chan) img chan) s"
    and out: "width (img_out s) = W" "height (img_out s) = H"
      "length (data (img_out s)) = nat (W * H * 3)"
  shows "\<exists>s'. blur W H R s = Inr s'
           \<and> tables_hold img (\<lambda>chan. rect_sums (mem chan) img chan) s'
           \<and> image_is W H (img_out s') (\<lambda>r c chan. True)
               (\<lambda>chan. effective_byte (mem chan) img R chan)"
proof -
  let ?F = "\<lambda>chan. effective_byte (mem chan) img R chan"
  let ?T = "tables_hold img (\<lambda>chan. rect_sums (mem chan) img chan)"
  let ?I = "\<lambda>row col t. ?T t \<and> image_is W H (img_out t) (done_before row col 0) ?F"
  have WH: "0 < W" "0 < H" using img by (simp_all add: valid_image_def)
  have row: "\<exists>t'. for_loop 0 W (blur_pixel W H R row) t = Inr t' \<and> ?I (row + 1) 0 t'"
    if r: "0 \<le> row" "row < H" and t: "?I row 0 t" for row t
  proof -
    have "\<exists>t'. for_loop 0 W (blur_pixel W H R row) t = Inr t' \<and> ?I row W t'"
    proof (rule for_loop_inv [where I = "?I row"])
      show "?I row 0 t" by (rule t)
      show "0 \<le> W" using WH by simp
    next
      fix col u
      assume c: "0 \<le> col" "col < W" and u: "?I row col u"
      have b: "byte_in_range (effective_window_sum (mem chan) img chan (spec_box W H R row col))
                 (spec_count (spec_box W H R row col))" if "0 \<le> chan" "chan < 3" for chan
        using byte [OF that r c] .
      show "\<exists>u'. blur_pixel W H R row col u = Inr u' \<and> ?I row (col + 1) u'"
        using blur_pixel_writes [where mem = mem and s = u, OF img fit2 col0 r c R b] u by blast
    qed
    then obtain t' where t': "for_loop 0 W (blur_pixel W H R row) t = Inr t'" "?I row W t'"
      by blast
    from t'(2) have "image_is W H (img_out t') (done_before row W 0) ?F" by simp
    then have "image_is W H (img_out t') (done_before (row + 1) 0 0) ?F"
      by (rule image_is_mono) (auto simp: done_before_def)
    with t' show ?thesis by blast
  qed
  have "\<exists>s'. for_loop 0 H (\<lambda>row. for_loop 0 W (blur_pixel W H R row)) s = Inr s' \<and> ?I H 0 s'"
  proof (rule for_loop_inv [where I = "\<lambda>row. ?I row 0"])
    have "image_is W H (img_out s) (done_before 0 0 0) ?F"
      using out by (auto simp: image_is_def done_before_def)
    with tabs show "?I 0 0 s" by simp
    show "0 \<le> H" using WH by simp
  next
    fix i t
    assume "0 \<le> i" "i < H" "?I i 0 t"
    then show "\<exists>t'. for_loop 0 W (blur_pixel W H R i) t = Inr t' \<and> ?I (i + 1) 0 t'"
      by (rule row)
  qed
  then obtain s' where s': "for_loop 0 H (\<lambda>row. for_loop 0 W (blur_pixel W H R row)) s = Inr s'"
      "?T s'" "image_is W H (img_out s') (done_before H 0 0) ?F"
    by blast
  have "image_is W H (img_out s') (\<lambda>r c chan. True) ?F"
    using s'(3) by (rule image_is_mono) (simp add: done_before_def)
  with s'(1,2) show ?thesis by (auto simp: blur_def)
qed

lemma state_is_tables_hold: "state_is img out f s \<Longrightarrow> tables_hold img f s"
  by (simp add: state_is_def tables_hold_def)

lemma effective_window_sum_pixels:
  assumes "\<And>r. y_min bx \<le> r \<Longrightarrow> r \<le> y_max bx \<Longrightarrow>
             x_min bx \<le> 0 \<Longrightarrow> cell mem (width img) r 0 = pixel img chan r 0"
  shows "effective_window_sum mem img chan bx
           = (\<Sum>y = y_min bx..y_max bx. \<Sum>x = x_min bx..x_max bx. pixel img chan y x)"
  unfolding effective_window_sum_def
proof (intro sum.cong refl)
  fix y x
  assume "y \<in> {y_min bx..y_max bx}" "x \<in> {x_min bx..x_max bx}"
  then show "effective_pixel mem img chan y x = pixel img chan y x"
    using assms [of y] by (auto simp: effective_pixel_def)
qed

section \<open>What main computes\<close>

text \<open>
  For an image with \<open>2 * 255 * W * H \<le> 2^31 - 1\<close> (so that neither the tables nor the sum
  \<open>b + c\<close> of two corners overflow), a radius for which \<open>col + R\<close> and \<open>row + R\<close> stay in
  range, blocks whose cells of column 0 hold values in \<open>0..255\<close>, and quotients that fit a
  byte: \<open>main\<close> runs without a fault, leaves the rectangle sums of the effective pixels in
  the tables, and every output sample is the single-precision quotient of the windowed sum
  of the effective pixels by the pixel count, with its fractional part discarded.
\<close>

lemma main_effective_run:
  assumes "valid_image img"
    and "2 * (255 * (width img * height img)) \<le> INT_MAX"
    and "0 \<le> R" "R + width img \<le> INT_MAX" "R + height img \<le> INT_MAX"
    and "length mem_r = nat (width img * height img)"
    and "length mem_g = nat (width img * height img)"
    and "length mem_b = nat (width img * height img)"
    and "\<forall>r. 0 \<le> r \<and> r < height img \<longrightarrow>
           0 \<le> cell mem_r (width img) r 0 \<and> cell mem_r (width img) r 0 \<le> 255
           \<and> 0 \<le> cell mem_g (width img) r 0 \<and> cell mem_g (width img) r 0 \<le> 255
           \<and> 0 \<le> cell mem_b (width img) r 0 \<and> cell mem_b (width img) r 0 \<le> 255"
    and "\<forall>chan r c. 0 \<le> chan \<and> chan < 3 \<and> 0 \<le> r \<and> r < height img \<and> 0 \<le> c \<and> c < width img \<longrightarrow>
           byte_in_range
             (effective_window_sum (mem_of mem_r mem_g mem_b chan) img chan
                (spec_box (width img) (height img) R r c))
             (spec_count (spec_box (width img) (height img) R r c))"
  shows "\<exists>s. main R img mem_r mem_g mem_b = Inr s
           \<and> tables_hold img (\<lambda>chan. rect_sums (mem_of mem_r mem_g mem_b chan) img chan) s
           \<and> (\<forall>chan r c. 0 \<le> chan \<and> chan < 3 \<and> 0 \<le> r \<and> r < height img \<and> 0 \<le> c \<and> c < width img
                 \<longrightarrow> out_pixel s chan r c
                       = effective_byte (mem_of mem_r mem_g mem_b chan) img R chan r c)"
proof -
  let ?W = "width img" and ?H = "height img"
  let ?mem = "mem_of mem_r mem_g mem_b"
  have WH: "0 < ?W" "0 < ?H" using assms(1) by (simp_all add: valid_image_def)
  then have "0 \<le> ?W * ?H" by simp
  with assms(2) have fit: "255 * (?W * ?H) \<le> INT_MAX" by linarith
  obtain s2 where s2: "build_tables (start img mem_r mem_g mem_b) = Inr s2"
      "state_is img (ImageCreate ?W ?H) (\<lambda>chan. rect_sums (?mem chan) img chan) s2"
    using build_tables_small [OF assms(1) fit assms(6-9)] by blast
  have col0: "0 \<le> cell (?mem chan) ?W r 0 \<and> cell (?mem chan) ?W r 0 \<le> 255"
    if "0 \<le> chan" "chan < 3" "0 \<le> r" "r < ?H" for chan r
    using assms(9) that by (auto simp: mem_of_def)
  have byte: "byte_in_range (effective_window_sum (?mem chan) img chan (spec_box ?W ?H R r c))
                (spec_count (spec_box ?W ?H R r c))"
    if "0 \<le> chan" "chan < 3" "0 \<le> r" "r < ?H" "0 \<le> c" "c < ?W" for chan r c
    using assms(10) that by simp
  have out: "width (img_out s2) = ?W" "height (img_out s2) = ?H"
      "length (data (img_out s2)) = nat (?W * ?H * 3)"
    using s2(2) by (simp_all add: state_is_def ImageCreate_def)
  obtain s where s: "blur ?W ?H R s2 = Inr s"
      "tables_hold img (\<lambda>chan. rect_sums (?mem chan) img chan) s"
      "image_is ?W ?H (img_out s) (\<lambda>r c chan. True) (\<lambda>chan. effective_byte (?mem chan) img R chan)"
    using blur_writes [where mem = ?mem, OF assms(1) refl refl assms(2) col0 assms(3-5) byte
        state_is_tables_hold [OF s2(2)] out]
    by blast
  have "main R img mem_r mem_g mem_b = Inr s"
    using s2(1) s(1) by (simp add: main_def Let_def start_def)
  moreover have "out_pixel s chan r c = effective_byte (?mem chan) img R chan r c"
    if "0 \<le> chan \<and> chan < 3 \<and> 0 \<le> r \<and> r < ?H \<and> 0 \<le> c \<and> c < ?W" for chan r c
    using s(3) that by (simp add: image_is_def out_pixel_def)
  ultimately show ?thesis using s(2) by blast
qed

theorem main_writes_effective_bytes:
  assumes "valid_image img"
    and "2 * (255 * (width img * height img)) \<le> INT_MAX"
    and "0 \<le> R" "R + width img \<le> INT_MAX" "R + height img \<le> INT_MAX"
    and "length mem_r = nat (width img * height img)"
    and "length mem_g = nat (width img * height img)"
    and "length mem_b = nat (width img * height img)"
    and "\<forall>r. 0 \<le> r \<and> r < height img \<longrightarrow>
           0 \<le> cell mem_r (width img) r 0 \<and> cell mem_r (width img) r 0 \<le> 255
           \<and> 0 \<le> cell mem_g (width img) r 0 \<and> cell mem_g (width img) r 0 \<le> 255
           \<and> 0 \<le> cell mem_b (width img) r 0 \<and> cell mem_b (width img) r 0 \<le> 255"
    and "\<forall>chan r c. 0 \<le> chan \<and> chan < 3 \<and> 0 \<le> r \<and> r < height img \<and> 0 \<le> c \<and> c < width img \<longrightarrow>
           byte_in_range
             (effective_window_sum (mem_of mem_r mem_g mem_b chan) img chan
                (spec_box (width img) (height img) R r c))
             (spec_count (spec_box (width img) (height img) R r c))"
  shows "\<exists>s. main R img mem_r mem_g mem_b = Inr s
           \<and> (\<forall>chan r c. 0 \<le> chan \<and> chan < 3 \<and> 0 \<le> r \<and> r < height img \<and> 0 \<le> c \<and> c < width img
                 \<longrightarrow> out_pixel s chan r c
                       = effective_byte (mem_of mem_r mem_g mem_b chan) img R chan r c)"
  using main_effective_run [OF assms] by blast

lemma effective_byte_average:
  assumes img: "valid_image img" and small: "255 * (width img * height img) < 16777216"
    and col0: "\<And>r. 0 \<le> r \<Longrightarrow> r < height img \<Longrightarrow>
                 0 \<le> cell mem (width img) r 0 \<and> cell mem (width img) r 0 \<le> 255"
    and rc: "0 \<le> row" "row < height img" "0 \<le> col" "col < width img" "0 \<le> R"
  shows "byte_in_range (effective_window_sum mem img chan (spec_box (width img) (height img) R row col))
           (spec_count (spec_box (width img) (height img) R row col))"
    and "effective_byte mem img R chan row col = effective_average mem img R chan row col"
proof -
  let ?W = "width img" and ?H = "height img"
  let ?bx = "spec_box ?W ?H R row col"
  let ?ws = "effective_window_sum mem img chan ?bx"
  have WH: "0 < ?W" "0 < ?H" using img by (simp_all add: valid_image_def)
  then have "0 \<le> ?W * ?H" by simp
  with small have fit: "?W * ?H \<le> INT_MAX" by (simp add: INT_MAX_def)
  note bx = spec_box_inside [OF rc]
  have cnt: "1 \<le> spec_count ?bx" "spec_count ?bx \<le> ?W * ?H"
    unfolding spec_count_def using window_pixels_ok(2,3) [OF bx fit] by simp_all
  have ws: "0 \<le> ?ws" "?ws \<le> 255 * spec_count ?bx"
    using bx by (intro effective_window_sum_bounds col0; simp)+
  have b: "0 \<le> ?ws" "?ws < 16777216" "0 < spec_count ?bx" "spec_count ?bx < 131072"
    "?ws < 256 * spec_count ?bx"
    using ws cnt small by simp_all
  show "byte_in_range ?ws (spec_count ?bx)" by (rule float_average_exact(2) [OF b])
  show "effective_byte mem img R chan row col = effective_average mem img R chan row col"
    by (simp add: effective_byte_def effective_average_def Let_def float_average_exact(1) [OF b])
qed

text \<open>
  For an image whose channel total stays below \<open>2^24\<close> (so that every windowed sum is a
  \<^verbatim>\<open>float\<close> and every quotient truncates as in integer division), a radius for which
  \<open>col + R\<close> and \<open>row + R\<close> stay in range, and blocks whose cells of column 0 hold values in
  \<open>0..255\<close>: \<open>main\<close> runs without a fault, and every output sample is the truncated average,
  over the clamped window, of the effective pixels.
\<close>

theorem main_blurs_effective_image:
  assumes "valid_image img"
    and "255 * (width img * height img) < 16777216"
    and "0 \<le> R" "R + width img \<le> INT_MAX" "R + height img \<le> INT_MAX"
    and "length mem_r = nat (width img * height img)"
    and "length mem_g = nat (width img * height img)"
    and "length mem_b = nat (width img * height img)"
    and "\<forall>r. 0 \<le> r \<and> r < height img \<longrightarrow>
           0 \<le> cell mem_r (width img) r 0 \<and> cell mem_r (width img) r 0 \<le> 255
           \<and> 0 \<le> cell mem_g (width img) r 0 \<and> cell mem_g (width img) r 0 \<le> 255
           \<and> 0 \<le> cell mem_b (width img) r 0 \<and> cell mem_b (width img) r 0 \<le> 255"
  shows "\<exists>s. main R img mem_r mem_g mem_b = Inr s
           \<and> (\<forall>chan r c. 0 \<le> chan \<and> chan < 3 \<and> 0 \<le> r \<and> r < height img \<and> 0 \<le> c \<and> c < width img
                 \<longrightarrow> out_pixel s chan r c
                       = effective_average (mem_of mem_r mem_g mem_b chan) img R chan r c)"
proof -
  let ?W = "width img" and ?H = "height img"
  let ?mem = "mem_of mem_r mem_g mem_b"
  have WH: "0 < ?W" "0 < ?H" using assms(1) by (simp_all add: valid_image_def)
  then have "0 \<le> ?W * ?H" by simp
  with assms(2) have fit2: "2 * (255 * (?W * ?H)) \<le> INT_MAX" by (simp add: INT_MAX_def)
  have col0: "0 \<le> cell (?mem chan) ?W r 0 \<and> cell (?mem chan) ?W r 0 \<le> 255"
    if "0 \<le> chan" "chan < 3" "0 \<le> r" "r < ?H" for chan r
    using assms(9) that by (auto simp: mem_of_def)
  have e: "byte_in_range (effective_window_sum (?mem chan) img chan (spec_box ?W ?H R r c))
             (spec_count (spec_box ?W ?H R r c))"
     "effective_byte (?mem chan) img R chan r c = effective_average (?mem chan) img R chan r c"
    if "0 \<le> chan" "chan < 3" "0 \<le> r" "r < ?H" "0 \<le> c" "c < ?W" for chan r c
    using effective_byte_average [OF assms(1,2) col0 [OF that(1,2)] that(3-6) assms(3)]
    by simp_all
  have "\<forall>chan r c. 0 \<le> chan \<and> chan < 3 \<and> 0 \<le> r \<and> r < ?H \<and> 0 \<le> c \<and> c < ?W \<longrightarrow>
          byte_in_range (effective_window_sum (?mem chan) img chan (spec_box ?W ?H R r c))
            (spec_count (spec_box ?W ?H R r c))"
    using e(1) by blast
  from main_effective_run [OF assms(1) fit2 assms(3-9) this]
  show ?thesis using e(2) by (metis (no_types, lifting))
qed

lemma effective_average_brute_force:
  assumes "0 \<le> row" "row < height img" "0 \<le> col" "col < width img" "0 \<le> R"
    and "R < col \<or> (\<forall>r. 0 \<le> r \<and> r < height img \<longrightarrow> cell mem (width img) r 0 = pixel img chan r 0)"
  shows "effective_average mem img R chan row col = spec_brute_force img R chan row col"
proof -
  let ?bx = "spec_box (width img) (height img) R row col"
  note bx = spec_box_inside [OF assms(1-5)]
  have "effective_window_sum mem img chan ?bx
          = (\<Sum>y = y_min ?bx..y_max ?bx. \<Sum>x = x_min ?bx..x_max ?bx. pixel img chan y x)"
  proof (rule effective_window_sum_pixels)
    fix r
    assume r: "y_min ?bx \<le> r" "r \<le> y_max ?bx" and x: "x_min ?bx \<le> 0"
    from x have "\<not> R < col" by (simp add: spec_box_def)
    with assms(6) have "\<forall>r. 0 \<le> r \<and> r < height img \<longrightarrow> cell mem (width img) r 0 = pixel img chan r 0"
      by simp
    moreover have "0 \<le> r" "r < height img" using r bx(4,6) by linarith+
    ultimately show "cell mem (width img) r 0 = pixel img chan r 0" by simp
  qed
  then show ?thesis by (simp add: effective_average_def spec_brute_force_def Let_def)
qed

lemma spec_brute_force_radius_0:
  assumes "0 \<le> row" "row < height img" "0 \<le> col" "col < width img"
  shows "spec_brute_force img 0 chan row col = pixel img chan row col"
proof -
  have "spec_box (width img) (height img) 0 row col
          = \<lparr>x_min = col, x_max = col, y_min = row, y_max = row\<rparr>"
    using assms by (simp add: spec_box_def)
  then show ?thesis by (simp add: spec_brute_force_def spec_count_def)
qed

lemma spec_brute_force_saturated:
  assumes "0 \<le> row" "row < height img" "0 \<le> col" "col < width img"
    and "max (width img) (height img) \<le> R"
  shows "spec_brute_force img R chan row col = spec_global_average img chan"
proof -
  have "spec_box (width img) (height img) R row col
          = \<lparr>x_min = 0, x_max = width img - 1, y_min = 0, y_max = height img - 1\<rparr>"
    using assms by (simp add: spec_box_def)
  then show ?thesis
    by (simp add: spec_brute_force_def spec_count_def spec_global_average_def spec_total_def
        spec_prefix_sum_def)
qed

text \<open>
  So every output sample whose window does not reach column 0 is the brute-force average
  of the specification, whatever column 0 of the tables holds.
\<close>

theorem blur_is_brute_force_right_of_the_defect:
  assumes "valid_image img"
    and "255 * (width img * height img) < 16777216"
    and "0 \<le> R" "R + width img \<le> INT_MAX" "R + height img \<le> INT_MAX"
    and "length mem_r = nat (width img * height img)"
    and "length mem_g = nat (width img * height img)"
    and "length mem_b = nat (width img * height img)"
    and "\<forall>r. 0 \<le> r \<and> r < height img \<longrightarrow>
           0 \<le> cell mem_r (width img) r 0 \<and> cell mem_r (width img) r 0 \<le> 255
           \<and> 0 \<le> cell mem_g (width img) r 0 \<and> cell mem_g (width img) r 0 \<le> 255
           \<and> 0 \<le> cell mem_b (width img) r 0 \<and> cell mem_b (width img) r 0 \<le> 255"
  shows "\<exists>s. main R img mem_r mem_g mem_b = Inr s
           \<and> (\<forall>chan r c. 0 \<le> chan \<and> chan < 3 \<and> 0 \<le> r \<and> r < height img \<and> R < c \<and> c < width img
                 \<longrightarrow> out_pixel s chan r c = spec_brute_force img R chan r c)"
proof -
  obtain s where s: "main R img mem_r mem_g mem_b = Inr s"
    "\<And>chan r c. 0 \<le> chan \<Longrightarrow> chan < 3 \<Longrightarrow> 0 \<le> r \<Longrightarrow> r < height img \<Longrightarrow> 0 \<le> c \<Longrightarrow> c < width img
       \<Longrightarrow> out_pixel s chan r c = effective_average (mem_of mem_r mem_g mem_b chan) img R chan r c"
    using main_blurs_effective_image [OF assms] by blast
  have "out_pixel s chan r c = spec_brute_force img R chan r c"
    if "0 \<le> chan \<and> chan < 3 \<and> 0 \<le> r \<and> r < height img \<and> R < c \<and> c < width img" for chan r c
  proof -
    from that assms(3) have c: "0 \<le> c" by linarith
    have "out_pixel s chan r c = effective_average (mem_of mem_r mem_g mem_b chan) img R chan r c"
      using s(2) [of chan r c] that c by simp
    also have "\<dots> = spec_brute_force img R chan r c"
      using that c assms(3) by (intro effective_average_brute_force) simp_all
    finally show ?thesis .
  qed
  with s(1) show ?thesis by blast
qed

text \<open>
  And all of them are when column 0 of each table happens to hold the pixels of column 0:
  the code differs from the specification by the missing initialisation alone.
\<close>

theorem blur_is_brute_force_when_column_0_holds_the_pixels:
  assumes "valid_image img"
    and "255 * (width img * height img) < 16777216"
    and "0 \<le> R" "R + width img \<le> INT_MAX" "R + height img \<le> INT_MAX"
    and "length mem_r = nat (width img * height img)"
    and "length mem_g = nat (width img * height img)"
    and "length mem_b = nat (width img * height img)"
    and "\<forall>r. 0 \<le> r \<and> r < height img \<longrightarrow>
           cell mem_r (width img) r 0 = pixel img 0 r 0
           \<and> cell mem_g (width img) r 0 = pixel img 1 r 0
           \<and> cell mem_b (width img) r 0 = pixel img 2 r 0"
  shows "\<exists>s. main R img mem_r mem_g mem_b = Inr s
           \<and> (\<forall>chan r c. 0 \<le> chan \<and> chan < 3 \<and> 0 \<le> r \<and> r < height img \<and> 0 \<le> c \<and> c < width img
                 \<longrightarrow> out_pixel s chan r c = spec_brute_force img R chan r c)"
proof -
  have col0: "\<forall>r. 0 \<le> r \<and> r < height img \<longrightarrow>
           0 \<le> cell mem_r (width img) r 0 \<and> cell mem_r (width img) r 0 \<le> 255
           \<and> 0 \<le> cell mem_g (width img) r 0 \<and> cell mem_g (width img) r 0 \<le> 255
           \<and> 0 \<le> cell mem_b (width img) r 0 \<and> cell mem_b (width img) r 0 \<le> 255"
    using assms(9) pixel_range by simp
  obtain s where s: "main R img mem_r mem_g mem_b = Inr s"
    "\<And>chan r c. 0 \<le> chan \<Longrightarrow> chan < 3 \<Longrightarrow> 0 \<le> r \<Longrightarrow> r < height img \<Longrightarrow> 0 \<le> c \<Longrightarrow> c < width img
       \<Longrightarrow> out_pixel s chan r c = effective_average (mem_of mem_r mem_g mem_b chan) img R chan r c"
    using main_blurs_effective_image [OF assms(1-8) col0] by blast
  have "out_pixel s chan r c = spec_brute_force img R chan r c"
    if a: "0 \<le> chan \<and> chan < 3 \<and> 0 \<le> r \<and> r < height img \<and> 0 \<le> c \<and> c < width img" for chan r c
  proof -
    from a consider "chan = 0" | "chan = 1" | "chan = 2" by linarith
    then have lucky: "\<forall>r. 0 \<le> r \<and> r < height img \<longrightarrow>
        cell (mem_of mem_r mem_g mem_b chan) (width img) r 0 = pixel img chan r 0"
      using assms(9) by cases simp_all
    have "out_pixel s chan r c = effective_average (mem_of mem_r mem_g mem_b chan) img R chan r c"
      using s(2) [of chan r c] a by simp
    also have "\<dots> = spec_brute_force img R chan r c"
      using a assms(3) lucky by (intro effective_average_brute_force) simp_all
    finally show ?thesis .
  qed
  with s(1) show ?thesis by blast
qed

text \<open>
  At radius 0 the window is the pixel itself, so column 0 of the output is column 0 of the
  blocks as \<^verbatim>\<open>malloc\<close> returned them, not column 0 of the input.
\<close>

lemma effective_average_radius_0:
  assumes "0 \<le> row" "row < height img" "0 \<le> col" "col < width img"
  shows "effective_average mem img 0 chan row col = effective_pixel mem img chan row col"
proof -
  have "spec_box (width img) (height img) 0 row col
          = \<lparr>x_min = col, x_max = col, y_min = row, y_max = row\<rparr>"
    using assms by (simp add: spec_box_def)
  then show ?thesis
    by (simp add: effective_average_def effective_window_sum_def spec_count_def)
qed

theorem radius_0_copies_column_0_of_the_blocks:
  assumes "valid_image img"
    and "255 * (width img * height img) < 16777216"
    and "width img \<le> INT_MAX" "height img \<le> INT_MAX"
    and "length mem_r = nat (width img * height img)"
    and "length mem_g = nat (width img * height img)"
    and "length mem_b = nat (width img * height img)"
    and "\<forall>r. 0 \<le> r \<and> r < height img \<longrightarrow>
           0 \<le> cell mem_r (width img) r 0 \<and> cell mem_r (width img) r 0 \<le> 255
           \<and> 0 \<le> cell mem_g (width img) r 0 \<and> cell mem_g (width img) r 0 \<le> 255
           \<and> 0 \<le> cell mem_b (width img) r 0 \<and> cell mem_b (width img) r 0 \<le> 255"
  shows "\<exists>s. main 0 img mem_r mem_g mem_b = Inr s
           \<and> (\<forall>chan r. 0 \<le> chan \<and> chan < 3 \<and> 0 \<le> r \<and> r < height img
                 \<longrightarrow> out_pixel s chan r 0 = cell (mem_of mem_r mem_g mem_b chan) (width img) r 0)"
proof -
  have W: "0 < width img" using assms(1) by (simp add: valid_image_def)
  obtain s where s: "main 0 img mem_r mem_g mem_b = Inr s"
    "\<And>chan r c. 0 \<le> chan \<Longrightarrow> chan < 3 \<Longrightarrow> 0 \<le> r \<Longrightarrow> r < height img \<Longrightarrow> 0 \<le> c \<Longrightarrow> c < width img
       \<Longrightarrow> out_pixel s chan r c = effective_average (mem_of mem_r mem_g mem_b chan) img 0 chan r c"
    using main_blurs_effective_image [of img 0 mem_r mem_g mem_b] assms by auto
  have "out_pixel s chan r 0 = cell (mem_of mem_r mem_g mem_b chan) (width img) r 0"
    if "0 \<le> chan \<and> chan < 3 \<and> 0 \<le> r \<and> r < height img" for chan r
    using s(2) [of chan r 0] that W
    by (simp add: effective_average_radius_0 effective_pixel_def)
  with s(1) show ?thesis by blast
qed

text \<open>The first pass hands column 0 on as it found it.\<close>

lemma first_pass_keeps_column_0:
  assumes "valid_image img"
    and "255 * (width img * height img) \<le> INT_MAX"
    and "length mem_r = nat (width img * height img)"
    and "length mem_g = nat (width img * height img)"
    and "length mem_b = nat (width img * height img)"
    and "\<forall>r. 0 \<le> r \<and> r < height img \<longrightarrow>
           0 \<le> cell mem_r (width img) r 0 \<and> cell mem_r (width img) r 0 \<le> 255
           \<and> 0 \<le> cell mem_g (width img) r 0 \<and> cell mem_g (width img) r 0 \<le> 255
           \<and> 0 \<le> cell mem_b (width img) r 0 \<and> cell mem_b (width img) r 0 \<le> 255"
  shows "\<exists>s'. phase1 (width img) (height img) (start img mem_r mem_g mem_b) = Inr s'
           \<and> (\<forall>r. 0 \<le> r \<and> r < height img \<longrightarrow>
                  cell (sums_r s') (width img) r 0 = cell mem_r (width img) r 0
                  \<and> cell (sums_g s') (width img) r 0 = cell mem_g (width img) r 0
                  \<and> cell (sums_b s') (width img) r 0 = cell mem_b (width img) r 0)"
proof -
  let ?W = "width img" and ?H = "height img"
  let ?mem = "mem_of mem_r mem_g mem_b"
  let ?s = "start img mem_r mem_g mem_b"
  have WH: "0 < ?W" "0 < ?H" using assms(1) by (simp_all add: valid_image_def)
  then have "0 \<le> ?W * ?H" by simp
  with assms(2) have small: "?W * ?H \<le> INT_MAX" by linarith
  have col0: "0 \<le> cell (?mem chan) ?W r 0 \<and> cell (?mem chan) ?W r 0 \<le> 255"
    if "0 \<le> chan" "chan < 3" "0 \<le> r" "r < ?H" for chan r
    using assms(6) that by (auto simp: mem_of_def)
  have s: "state_is img (ImageCreate ?W ?H) (\<lambda>chan. cell (?mem chan) ?W) ?s"
    using assms(3-5) by (simp add: state_is_def start_def table_is_self)
  have ov: "INT_MIN \<le> row_sums (?mem chan) img chan row col
            \<and> row_sums (?mem chan) img chan row col \<le> INT_MAX"
    if a: "0 \<le> chan" "chan < 3" "0 \<le> row" "row < ?H" "0 < col" "col < ?W" for chan row col
  proof -
    have c: "0 \<le> col" using a(5) by simp
    note b = row_sums_bounds [of "?mem chan" img row col chan]
    have "1 * (col + 1) \<le> (row + 1) * (col + 1)"
      using a(3) c by (intro mult_right_mono) simp_all
    moreover have "(row + 1) * (col + 1) \<le> ?W * ?H"
      using a(3,4) c a(6) by (rule area_le)
    ultimately have "255 * (col + 1) \<le> INT_MAX" using assms(2) by linarith
    with b col0 [OF a(1-4)] c show ?thesis by (simp add: INT_MIN_def)
  qed
  obtain s1 where s1: "phase1 ?W ?H ?s = Inr s1"
      "state_is img (ImageCreate ?W ?H) (\<lambda>chan. row_sums (?mem chan) img chan) s1"
    using phase1_rows [where mem = ?mem, OF assms(1) refl refl small s ov] by blast
  have "cell (sums_r s1) ?W r 0 = cell mem_r ?W r 0
        \<and> cell (sums_g s1) ?W r 0 = cell mem_g ?W r 0
        \<and> cell (sums_b s1) ?W r 0 = cell mem_b ?W r 0"
    if "0 \<le> r \<and> r < ?H" for r
    using s1(2) that WH by (simp add: state_is_def table_is_def row_sums_0)
  with s1(1) show ?thesis by blast
qed

section \<open>The four-corner sum and the averaged byte (C4)\<close>

text \<open>The row of grey pixels: its samples, and the sums along it that the first pass builds.\<close>

lemma grey_row_dims: "width grey_row = 66564" "height grey_row = 1"
  "length (data grey_row) = 199692"
  by (simp_all add: grey_row_def)

lemma grey_row_valid: "valid_image grey_row"
  by (simp add: valid_image_def grey_row_dims)

lemma grey_row_pixel:
  assumes "0 < c" "c < 66564" "0 \<le> chan" "chan < 3"
  shows "pixel grey_row chan 0 c = (if c \<le> 126 then 255 else 253)"
proof -
  define i where "i = nat (pixel_offset grey_row c 0 chan)"
  have i: "3 \<le> i" "i < 199692" "i < 381 \<longleftrightarrow> c \<le> 126"
    using assms by (auto simp: i_def pixel_offset_def grey_row_dims)
  have "i - 3 < 378 \<longleftrightarrow> c \<le> 126" using i by linarith
  then have "data grey_row ! i = (if c \<le> 126 then 255 else 253)"
    using i(1,2) by (simp add: grey_row_def nth_append)
  then show ?thesis by (simp add: pixel_def i_def)
qed

lemma grey_row_sums:
  assumes "0 \<le> c" "c < 66564" "0 \<le> chan" "chan < 3"
  shows "row_sums zero_grey grey_row chan 0 c = (if c \<le> 126 then 255 * c else 253 * c + 252)"
  using assms(1,2)
proof (induction c rule: int_ge_induct)
  case base
  show ?case by (simp add: row_sums_0 cell_def zero_grey_def)
next
  case (step c)
  then have "row_sums zero_grey grey_row chan 0 (c + 1)
               = pixel grey_row chan 0 (c + 1) + row_sums zero_grey grey_row chan 0 c"
    by (simp add: row_sums_step)
  also have "\<dots> = (if c + 1 \<le> 126 then 255 * (c + 1) else 253 * (c + 1) + 252)"
    using step assms(3,4) by (simp add: grey_row_pixel)
  finally show ?case .
qed

lemma grey_row_window:
  assumes "0 \<le> chan" "chan < 3"
  shows "effective_window_sum zero_grey grey_row chan
           \<lparr>x_min = 0, x_max = 66563, y_min = 0, y_max = 0\<rparr> = 16840691"
  using grey_row_sums [of 66563 chan] assms
  by (simp add: effective_window_sum_def row_sums_def)

lemma float_average_grey: "float_average 16840691 66564 = 253"
  by code_simp

text \<open>
  C4, as stated: the output value is claimed to be the windowed sum divided by the pixel
  count, truncated toward zero. Line 162 converts the sum to \<^verbatim>\<open>float\<close> before it divides,
  and a \<^verbatim>\<open>float\<close> has a significand of 24 bits. On the row of 66564 grey pixels, with
  the blocks zeroed and \<open>R = 66564\<close>, the window of every pixel is the whole row: the four
  corners give the sum 16840691 and the count is 66564; the conversion rounds the sum to
  \<open>16840692.0\<close> (a tie, resolved to the even significand), the quotient is \<open>253.0\<close>, and
  \<open>main\<close> writes 253 where \<open>16840691 / 66564\<close> truncates to 252. The first pixel of the row is
  0, as are the blocks, so the tables of this run hold the sums of the image's own pixels.
\<close>

theorem float_quotient_rounds_up:
  "\<exists>s. main 66564 grey_row zero_grey zero_grey zero_grey = Inr s
      \<and> bounding_box 66564 1 66564 0 0 = Inr \<lparr>x_min = 0, x_max = 66563, y_min = 0, y_max = 0\<rparr>
      \<and> window_pixels \<lparr>x_min = 0, x_max = 66563, y_min = 0, y_max = 0\<rparr> = Inr 66564
      \<and> window_sum (sums_r s) 66564 \<lparr>x_min = 0, x_max = 66563, y_min = 0, y_max = 0\<rparr>
          = Inr 16840691
      \<and> out_pixel s 0 0 0 = 253
      \<and> 16840691 div 66564 = (252 :: int)"
proof -
  let ?W = "66564 :: int"
  let ?bx = "\<lparr>x_min = 0, x_max = 66563, y_min = 0, y_max = 0\<rparr>"
  let ?mem = "mem_of zero_grey zero_grey zero_grey"
  have mem: "?mem chan = zero_grey" for chan by (simp add: mem_of_def)
  have bx: "spec_box ?W 1 ?W r c = ?bx" if "0 \<le> r" "r < 1" "0 \<le> c" "c < ?W" for r c
    using that by (simp add: spec_box_def)
  have n: "spec_count ?bx = ?W" by (simp add: spec_count_def)
  have byte: "byte_in_range 16840691 ?W"
    by (simp add: byte_in_range_def float_average_grey)
  have col0: "cell zero_grey ?W r 0 = 0" if "0 \<le> r" "r < 1" for r
    using that by (simp add: cell_def zero_grey_def)
  have "\<exists>s. main ?W grey_row zero_grey zero_grey zero_grey = Inr s
          \<and> tables_hold grey_row (\<lambda>chan. rect_sums (?mem chan) grey_row chan) s
          \<and> (\<forall>chan r c. 0 \<le> chan \<and> chan < 3 \<and> 0 \<le> r \<and> r < height grey_row
                  \<and> 0 \<le> c \<and> c < width grey_row
                \<longrightarrow> out_pixel s chan r c = effective_byte (?mem chan) grey_row ?W chan r c)"
  proof (rule main_effective_run [OF grey_row_valid])
    show "2 * (255 * (width grey_row * height grey_row)) \<le> INT_MAX"
      "0 \<le> ?W" "?W + width grey_row \<le> INT_MAX" "?W + height grey_row \<le> INT_MAX"
      by (simp_all add: grey_row_dims INT_MAX_def)
    show len: "length zero_grey = nat (width grey_row * height grey_row)"
      by (simp add: grey_row_dims zero_grey_def)
    show "length zero_grey = nat (width grey_row * height grey_row)"
      "length zero_grey = nat (width grey_row * height grey_row)"
      by (rule len)+
    show "\<forall>r. 0 \<le> r \<and> r < height grey_row \<longrightarrow>
           0 \<le> cell zero_grey (width grey_row) r 0 \<and> cell zero_grey (width grey_row) r 0 \<le> 255
           \<and> 0 \<le> cell zero_grey (width grey_row) r 0 \<and> cell zero_grey (width grey_row) r 0 \<le> 255
           \<and> 0 \<le> cell zero_grey (width grey_row) r 0 \<and> cell zero_grey (width grey_row) r 0 \<le> 255"
      using col0 by (simp add: grey_row_dims)
    show "\<forall>chan r c. 0 \<le> chan \<and> chan < 3 \<and> 0 \<le> r \<and> r < height grey_row
              \<and> 0 \<le> c \<and> c < width grey_row \<longrightarrow>
           byte_in_range
             (effective_window_sum (?mem chan) grey_row chan
                (spec_box (width grey_row) (height grey_row) ?W r c))
             (spec_count (spec_box (width grey_row) (height grey_row) ?W r c))"
      using byte by (simp add: grey_row_dims mem bx n grey_row_window)
  qed
  then obtain s where s: "main ?W grey_row zero_grey zero_grey zero_grey = Inr s"
      "tables_hold grey_row (\<lambda>chan. rect_sums (?mem chan) grey_row chan) s"
      "out_pixel s 0 0 0 = effective_byte (?mem 0) grey_row ?W 0 0 0"
    by (auto simp: grey_row_dims)
  have out: "out_pixel s 0 0 0 = 253"
    by (simp add: s(3) effective_byte_def Let_def grey_row_dims mem bx n grey_row_window
        float_average_grey)
  have t: "table_is ?W 1 (sums_r s) (rect_sums zero_grey grey_row 0)"
    using s(2) by (simp add: tables_hold_def grey_row_dims mem)
  have col0': "0 \<le> cell zero_grey ?W r 0 \<and> cell zero_grey ?W r 0 \<le> 255"
    if "0 \<le> r" "r < 1" for r
    using col0 [OF that] by simp
  have w: "spec_window_sum (sums_r s) ?W ?bx = effective_window_sum zero_grey grey_row 0 ?bx"
    "corners_in_range (sums_r s) ?W ?bx"
    by (rule window_sum_effective [where H = 1 and img = grey_row, OF _ _ _ _ _ col0' _ _ _ _ _ _ t];
        simp add: grey_row_dims INT_MAX_def)+
  have "window_sum (sums_r s) ?W ?bx = Inr (spec_window_sum (sums_r s) ?W ?bx)"
    using w(2) table_is_length [OF t]
    by (intro window_sum_formula [where H = 1]) (simp_all add: corners_in_range_def INT_MAX_def)
  then have ws: "window_sum (sums_r s) ?W ?bx = Inr 16840691"
    by (simp add: w(1) grey_row_window)
  have bb: "bounding_box ?W 1 ?W 0 0 = Inr ?bx" "window_pixels ?bx = Inr ?W"
    using bounding_box_spec_box [of 0 1 0 ?W ?W] by (simp_all add: bx n INT_MAX_def)
  show ?thesis using s(1) bb ws out by simp
qed

text \<open>
  C4, amended: for every pixel \<open>(row, col)\<close> of the third pass and every channel, on tables
  of \<open>W * H \<le> 2^31 - 1\<close> cells and with \<open>col + R\<close> and \<open>row + R\<close> in the range of \<open>int\<close>, the
  windowed sum the code computes is \<open>d - b - c + a\<close>, with \<open>a\<close>, \<open>b\<close>, \<open>c\<close>, \<open>d\<close> the four
  corner values of the specification (0 where the corner lies above row 0 or left of
  column 0) at the clamped bounding box of the pixel; the value the code writes to the
  output image is the single-precision quotient \<^verbatim>\<open>(float) sum / (float) count\<close> with its
  fractional part discarded, \<open>count\<close> being the pixel count of that box; and where
  \<open>0 \<le> sum < 2^24\<close>, \<open>count < 2^17\<close> and \<open>sum < 256 * count\<close>, that value is \<open>sum / count\<close>
  truncated toward zero. The hypotheses on the tables say that the three \<open>int\<close> operations
  of \<^verbatim>\<open>d - (b + c - a)\<close> stay in range and that the quotient fits a byte; line 162 is
  undefined otherwise.
\<close>

theorem blur_pixel_four_corners:
  assumes "0 \<le> row" "row < H" "0 \<le> col" "col < W" "0 \<le> R"
    and "col + R \<le> INT_MAX" "row + R \<le> INT_MAX" "W * H \<le> INT_MAX"
    and "length (sums_r s) = nat (W * H)" "length (sums_g s) = nat (W * H)"
      "length (sums_b s) = nat (W * H)"
    and "width (img_out s) = W" "height (img_out s) = H"
      "length (data (img_out s)) = nat (W * H * 3)"
    and "\<forall>chan. 0 \<le> chan \<and> chan < 3 \<longrightarrow>
           corners_in_range (sums_color s chan) W (spec_box W H R row col)
           \<and> byte_in_range (spec_window_sum (sums_color s chan) W (spec_box W H R row col))
               (spec_count (spec_box W H R row col))"
  shows "\<exists>s'. blur_pixel W H R row col s = Inr s'
           \<and> (\<forall>chan. 0 \<le> chan \<and> chan < 3 \<longrightarrow>
                 window_sum (sums_color s chan) W (spec_box W H R row col)
                   = Inr (spec_window_sum (sums_color s chan) W (spec_box W H R row col))
                 \<and> out_pixel s' chan row col
                   = float_average (spec_window_sum (sums_color s chan) W (spec_box W H R row col))
                       (spec_count (spec_box W H R row col))
                 \<and> (0 \<le> spec_window_sum (sums_color s chan) W (spec_box W H R row col)
                      \<and> spec_window_sum (sums_color s chan) W (spec_box W H R row col) < 16777216
                      \<and> spec_count (spec_box W H R row col) < 131072
                      \<and> spec_window_sum (sums_color s chan) W (spec_box W H R row col)
                          < 256 * spec_count (spec_box W H R row col)
                     \<longrightarrow> out_pixel s' chan row col
                           = spec_window_sum (sums_color s chan) W (spec_box W H R row col)
                               div spec_count (spec_box W H R row col)))"
proof -
  let ?bx = "spec_box W H R row col"
  note bx = spec_box_inside [OF assms(1-5)]
  have n: "0 < spec_count ?bx"
    using window_pixels_ok(2) [OF bx assms(8)] by (simp add: spec_count_def)
  have ok: "corners_in_range (sums_color s chan) W ?bx
            \<and> byte_in_range (spec_window_sum (sums_color s chan) W ?bx) (spec_count ?bx)"
    if "0 \<le> chan" "chan < 3" for chan
    using assms(15) that by simp
  obtain s' where s': "blur_pixel W H R row col s = Inr s'"
    "\<And>chan. 0 \<le> chan \<Longrightarrow> chan < 3 \<Longrightarrow>
       out_pixel s' chan row col
         = float_average (spec_window_sum (sums_color s chan) W ?bx) (spec_count ?bx)"
    using blur_pixel_corners [OF assms(1-14) ok] by blast
  have ws: "window_sum (sums_color s chan) W ?bx = Inr (spec_window_sum (sums_color s chan) W ?bx)"
    if "0 \<le> chan" "chan < 3" for chan
    using bx assms(8) sums_color_length [OF assms(9-11)] ok [OF that]
    by (intro window_sum_formula) (simp_all add: corners_in_range_def)
  show ?thesis
    using s' ws float_average_exact(1) n by (intro exI [of _ s']) simp
qed

text \<open>
  The lower right pixel of a 3 by 3 image whose samples are all 9, at radius 1, on the
  summed-area table of that image: the window is the lower right 2 by 2 block.
\<close>

theorem blur_pixel_four_corners_witness:
  "\<exists>s'. blur_pixel 3 3 1 2 2 nines = Inr s'
      \<and> spec_box 3 3 1 2 2 = \<lparr>x_min = 1, x_max = 2, y_min = 1, y_max = 2\<rparr>
      \<and> window_sum (sums_r nines) 3 (spec_box 3 3 1 2 2) = Inr (81 - 27 - 27 + 9)
      \<and> out_pixel s' 0 2 2 = 36 div 4 \<and> out_pixel s' 1 2 2 = 36 div 4
      \<and> out_pixel s' 2 2 2 = 36 div 4"
proof -
  let ?t = "[9, 18, 27, 18, 36, 54, 27, 54, 81] :: int list"
  let ?bx = "\<lparr>x_min = 1, x_max = 2, y_min = 1, y_max = 2\<rparr>"
  have bx: "spec_box 3 3 1 2 2 = ?bx" by (simp add: spec_box_def)
  have n: "spec_count ?bx = 4" by (simp add: spec_count_def)
  have t: "sums_color nines chan = ?t" for chan by (simp add: sums_color_def nines_def)
  have v: "spec_a ?t 3 ?bx = 9" "spec_b ?t 3 ?bx = 27" "spec_c ?t 3 ?bx = 27" "spec_d ?t 3 ?bx = 81"
    by (simp_all add: spec_a_def spec_b_def spec_c_def spec_d_def cell_def)
  have ws: "spec_window_sum ?t 3 ?bx = 36" by (simp add: spec_window_sum_def v)
  have c: "corners_in_range ?t 3 ?bx"
    by (simp add: corners_in_range_def v ws INT_MIN_def INT_MAX_def)
  have b: "byte_in_range 36 4" by (rule float_average_exact(2)) simp_all
  have len: "length (sums_r nines) = nat (3 * 3)" "length (sums_g nines) = nat (3 * 3)"
    "length (sums_b nines) = nat (3 * 3)"
    "width (img_out nines) = 3" "height (img_out nines) = 3"
    "length (data (img_out nines)) = nat (3 * 3 * 3)"
    by (simp_all add: nines_def ImageCreate_def)
  have "\<exists>s'. blur_pixel 3 3 1 2 2 nines = Inr s'
          \<and> (\<forall>chan. 0 \<le> chan \<and> chan < 3 \<longrightarrow>
                window_sum ?t 3 ?bx = Inr 36 \<and> out_pixel s' chan 2 2 = float_average 36 4
                \<and> out_pixel s' chan 2 2 = 36 div 4)"
    using blur_pixel_four_corners [of 2 3 2 3 1 nines, OF _ _ _ _ _ _ _ _ len]
    by (simp add: bx n t ws c b INT_MAX_def)
  then obtain s' where s': "blur_pixel 3 3 1 2 2 nines = Inr s'"
    "\<And>chan. 0 \<le> chan \<Longrightarrow> chan < 3 \<Longrightarrow> window_sum ?t 3 ?bx = Inr 36 \<and> out_pixel s' chan 2 2 = 36 div 4"
    by blast
  from s'(2) [of 0] s'(2) [of 1] s'(2) [of 2] s'(1) show ?thesis
    using t [of 0] by (intro exI [of _ s']) (simp add: bx sums_color_def)
qed

section \<open>Column 0 of the tables is never written\<close>

text \<open>
  The inner loop of the first pass starts at \<open>col = 1\<close> and the second pass only adds to what
  the first left, so no statement of \<open>main\<close> ever assigns \<open>table[r][0]\<close> before it is read: the
  cell keeps what \<^verbatim>\<open>malloc\<close> handed out. The comment above the first pass says that the
  pass reads the image so that no separate loop has to initialise the tables with the
  image's pixels, and the comment at the allocation says that the tables hold the sums of
  all rectangles from \<open>(0, 0)\<close> to each pixel. The theorems of this section run the code on
  a 2 by 2 image with the blocks zeroed, and on a 1 by 1 image.
\<close>

text \<open>
  C3: the first pass is claimed to establish \<open>table[r][0] = pixel[r][0]\<close>. On the 2 by 2 image
  it leaves \<open>table[0][0] = 0\<close> and \<open>table[1][0] = 0\<close> in the red table, where the pixels are 10
  and 70; the cells of column 1 are the pixel plus the cell to the left, as claimed.
\<close>

theorem phase1_skips_column_0:
  "phase1 2 2 (start image_2x2 zeros4 zeros4 zeros4)
     = Inr \<lparr>img_in = image_2x2, img_out = ImageCreate 2 2,
            sums_r = [0, 40, 0, 100], sums_g = [0, 50, 0, 110], sums_b = [0, 60, 0, 120]\<rparr>
   \<and> pixel image_2x2 0 0 0 = 10 \<and> pixel image_2x2 0 1 0 = 70"
  by code_simp

text \<open>
  C1: after both passes the red table is claimed to hold the prefix sums 10, 50, 80, 220
  and, in its bottom-right cell, the sum 220 of the channel. It holds 0, 40, 0, 140.
\<close>

theorem tables_miss_column_0:
  "build_tables (start image_2x2 zeros4 zeros4 zeros4)
     = Inr \<lparr>img_in = image_2x2, img_out = ImageCreate 2 2,
            sums_r = [0, 40, 0, 140], sums_g = [0, 50, 0, 160], sums_b = [0, 60, 0, 180]\<rparr>
   \<and> map (\<lambda>(r, c). spec_prefix_sum image_2x2 0 r c) [(0, 0), (0, 1), (1, 0), (1, 1)]
       = [10, 50, 80, 220]
   \<and> spec_total image_2x2 0 = 220"
  by code_simp

text \<open>
  C2: at radius 1 every window of the 2 by 2 image is the whole image, and the brute-force
  averages of the three channels are 55, 65 and 75. The code writes 35, 40 and 45.
\<close>

theorem blur_differs_from_brute_force:
  "written_image 1 image_2x2 zeros4 zeros4 zeros4
     = Inr \<lparr>width = 2, height = 2, data = [35, 40, 45, 35, 40, 45, 35, 40, 45, 35, 40, 45]\<rparr>
   \<and> map (\<lambda>chan. spec_brute_force image_2x2 1 chan 0 0) [0, 1, 2] = [55, 65, 75]"
  by code_simp

text \<open>
  C6: at radius 0 the output is claimed to equal the input. The pixels of column 0 come out
  as \<open>(0, 0, 0)\<close>.
\<close>

theorem radius_0_is_not_identity:
  "written_image 0 image_2x2 zeros4 zeros4 zeros4
     = Inr \<lparr>width = 2, height = 2, data = [0, 0, 0, 40, 50, 60, 0, 0, 0, 100, 110, 120]\<rparr>
   \<and> data image_2x2 = [10, 20, 30, 40, 50, 60, 70, 80, 90, 100, 110, 120]"
  by code_simp

text \<open>
  C7: at radius 2, which is \<open>max W H\<close>, every output value is claimed to be the global average
  of its channel: 55, 65, 75. The code writes 35, 40 and 45.
\<close>

theorem large_radius_is_not_global_average:
  "written_image 2 image_2x2 zeros4 zeros4 zeros4
     = Inr \<lparr>width = 2, height = 2, data = [35, 40, 45, 35, 40, 45, 35, 40, 45, 35, 40, 45]\<rparr>
   \<and> map (spec_global_average image_2x2) [0, 1, 2] = [55, 65, 75]"
  by code_simp

text \<open>
  C9: the windowed sum is claimed to be non-negative and the output to be in range for every
  valid bounding box. On the 1 by 1 image neither pass writes anything; when the red block
  holds \<open>- 1\<close>, the only window has count 1 and sum \<open>- 1\<close>, and converting \<open>- 1.0\<close> to
  \<^verbatim>\<open>unsigned char\<close> is undefined.
\<close>

theorem negative_window_sum:
  "build_tables (start image_1x1 [- 1] [0] [0]) = Inr (start image_1x1 [- 1] [0] [0])
   \<and> bounding_box 1 1 0 0 0 = Inr \<lparr>x_min = 0, x_max = 0, y_min = 0, y_max = 0\<rparr>
   \<and> window_pixels \<lparr>x_min = 0, x_max = 0, y_min = 0, y_max = 0\<rparr> = Inr 1
   \<and> window_sum [- 1] 1 \<lparr>x_min = 0, x_max = 0, y_min = 0, y_max = 0\<rparr> = Inr (- 1)
   \<and> average (- 1) 1 = Inl FloatToInt
   \<and> written_image 0 image_1x1 [- 1] [0] [0] = Inl FloatToInt"
  by code_simp

end
